theory Spec2Isabelle
  imports Main "HOL-Library.Word" "HOL-Library.Sublist"
begin

section \<open>JavaScript strings\<close>

text \<open>
  A JavaScript string is a sequence of 16-bit code units; \<open>length\<close> counts code units.
  ASCII literals are written through \<open>js\<close>; the Korean message constants of the source
  are given by their code units.
\<close>

type_synonym jschar = "16 word"
type_synonym jsstring = "jschar list"

definition js :: "string \<Rightarrow> jsstring" where
  "js s = map of_char s"

text \<open>
  \<open>Number.prototype.toString\<close> on a non-negative integer, such as a reading of
  \<open>Date.now()\<close>: its decimal digits (JavaScript changes to exponent notation only from
  10 to the power 21).
\<close>

definition digit :: "nat \<Rightarrow> jschar" where
  "digit d = of_nat (48 + d)"

fun toString :: "nat \<Rightarrow> jsstring" where
  "toString n = (if n < 10 then [digit n] else toString (n div 10) @ [digit (n mod 10)])"

declare toString.simps [simp del]

text \<open>
  White space as \<open>trim()\<close> and the regular expression class \<open>\s\<close> see it: the code units
  of WhiteSpace and LineTerminator.
\<close>

definition is_ws :: "jschar \<Rightarrow> bool" where
  "is_ws c \<longleftrightarrow>
     c \<in> set [0x9, 0xA, 0xB, 0xC, 0xD, 0x20, 0xA0, 0x1680, 0x2028, 0x2029, 0x202F, 0x205F,
              0x3000, 0xFEFF]
     \<or> (0x2000 \<le> c \<and> c \<le> 0x200A)"

definition trim :: "jsstring \<Rightarrow> jsstring" where
  "trim s = rev (dropWhile is_ws (rev (dropWhile is_ws s)))"

text \<open>
  \<open>s.split(sep)\<close> for a separator string: the pieces between the occurrences of \<open>sep\<close>,
  found from the left without overlap; with the empty separator, the code units.
\<close>

fun split_from :: "jsstring \<Rightarrow> jsstring \<Rightarrow> jsstring \<Rightarrow> jsstring list" where
  "split_from sep cur [] = [cur]"
| "split_from sep cur (c # cs) =
     (if prefix sep (c # cs) then cur # split_from sep [] (drop (length sep - 1) cs)
      else split_from sep (cur @ [c]) cs)"

definition split_str :: "jsstring \<Rightarrow> jsstring \<Rightarrow> jsstring list" where
  "split_str sep s = (if sep = [] then map (\<lambda>c. [c]) s else split_from sep [] s)"

text \<open>\<open>parts.join(sep)\<close>.\<close>

fun join :: "jsstring \<Rightarrow> jsstring list \<Rightarrow> jsstring" where
  "join sep [] = []"
| "join sep [x] = x"
| "join sep (x # y # ys) = x @ sep @ join sep (y # ys)"

text \<open>\<open>s.includes(sub)\<close>.\<close>

fun includes_str :: "jsstring \<Rightarrow> jsstring \<Rightarrow> bool" where
  "includes_str [] sub \<longleftrightarrow> sub = []"
| "includes_str (c # cs) sub \<longleftrightarrow> prefix sub (c # cs) \<or> includes_str cs sub"

text \<open>\<open>s.replace(/\*\*/g, '')\<close>: every pair of asterisks, from the left, is dropped.\<close>

fun remove_bold :: "jsstring \<Rightarrow> jsstring" where
  "remove_bold (c # d # cs) =
     (if c = 0x2A \<and> d = 0x2A then remove_bold cs else c # remove_bold (d # cs))"
| "remove_bold cs = cs"

text \<open>\<open>s.replace(/\./g, '')\<close>.\<close>

definition remove_periods :: "jsstring \<Rightarrow> jsstring" where
  "remove_periods s = filter (\<lambda>c. c \<noteq> 0x2E) s"

text \<open>\<open>s.replace(/\s+/g, '')\<close>.\<close>

definition remove_ws :: "jsstring \<Rightarrow> jsstring" where
  "remove_ws s = filter (\<lambda>c. \<not> is_ws c) s"

text \<open>
  Letters under the flag \<open>i\<close>: a code unit matches an ASCII letter of a pattern when it is
  that letter in either case (no code unit outside ASCII is folded into ASCII).
\<close>

definition ascii_upper :: "jschar \<Rightarrow> jschar" where
  "ascii_upper c = (if 0x61 \<le> c \<and> c \<le> 0x7A then c - 0x20 else c)"

text \<open>
  \<open>s.replace(/^P[:\s]*/i, '')\<close> for a literal \<open>P\<close>: a leading \<open>P\<close>, in any case, is
  dropped with the colons and white space that follow it.
\<close>

definition strip_label :: "jsstring \<Rightarrow> jsstring \<Rightarrow> jsstring" where
  "strip_label label s =
    (if length label \<le> length s
        \<and> map ascii_upper (take (length label) s) = map ascii_upper label
     then dropWhile (\<lambda>c. c = 0x3A \<or> is_ws c) (drop (length label) s)
     else s)"

section \<open>types.ts\<close>

record Source =
  uri :: jsstring
  title :: jsstring

text \<open>
  \<open>interface ScanResult\<close>. The fields \<open>id\<close> and \<open>text\<close> carry a suffix, the plain names
  being taken. An optional field is an \<open>option\<close>.
\<close>

record ScanResult =
  id_scan :: jsstring
  timestamp :: nat
  imageUrl :: jsstring
  text_scan :: jsstring
  reasoning :: "jsstring option"
  sources :: "Source list"
  loading :: bool
  error :: "jsstring option"

text \<open>
  \<open>interface CameraHandle\<close>: the only member is \<open>capture\<close>, which returns a string or
  \<open>null\<close>. A handle is represented by what its \<open>capture()\<close> returns when called.
\<close>

type_synonym CameraHandle = "jsstring option"

section \<open>The Inference Client's interface\<close>

text \<open>
  What \<open>solveProblemFromImage\<close> resolves to: the object \<open>{ text, reasoning, sources }\<close>.
\<close>

record SolveResult =
  text_res :: jsstring
  reasoning_res :: jsstring
  sources_res :: "Source list"

text \<open>
  A thrown value. What is thrown inside the client is an \<open>Error\<close> object: the one the
  timeout rejects with, a \<open>TypeError\<close> of the runtime, or the error of the remote call;
  the \<open>catch\<close> blocks read its \<open>message\<close>, a string.
\<close>

datatype js_error = Error (message: jsstring)

text \<open>
  \<open>interface GroundingChunk\<close> has one optional member \<open>web\<close>. The response of
  \<open>generateContent\<close> is read at \<open>response.text\<close> (possibly undefined) and at
  \<open>response.candidates?.[0]?.groundingMetadata?.groundingChunks\<close> (possibly undefined).
\<close>

type_synonym GroundingChunk = "Source option"

record ApiResponse =
  response_text :: "jsstring option"
  groundingChunks :: "GroundingChunk list option"

text \<open>
  The behaviour of the remote call as seen by \<open>Promise.race([apiCall, timeoutCall])\<close>:
  the call resolves first, rejects first, or is still pending when the timeout fires.
\<close>

datatype api_settle = ApiResolved ApiResponse | ApiRejected js_error | ApiPending

text \<open>
  An awaited promise is fulfilled (\<open>Inr\<close>) or rejected (\<open>Inl\<close>). A client maps the image
  and the behaviour of the remote service to the outcome of its promise.
\<close>

type_synonym client = "jsstring \<Rightarrow> api_settle \<Rightarrow> js_error + SolveResult"

section \<open>services/geminiService.ts\<close>

text \<open>
  The request (image data, prompt, model and its configuration) has no part in how the
  response is read, so the behaviour of the remote service is an input. The module that
  \<open>App.tsx\<close> imports races the call against a timeout of 15 seconds.
\<close>

text \<open>
  The Korean string literals of the module, by their code units: the default for a
  response without text, the default reasoning, the default error message, the message
  for a safety block, the prefix of the reasoning of a failure, and the messages of the
  two timeouts.
\<close>

definition no_result_message :: jsstring where
  "no_result_message = [0xBD84, 0xC11D, 0x20, 0xACB0, 0xACFC, 0xB97C, 0x20, 0xCC3E, 0xC744,
     0x20, 0xC218, 0x20, 0xC5C6, 0xC2B5, 0xB2C8, 0xB2E4, 0x2E]"

definition no_reasoning_message :: jsstring where
  "no_reasoning_message = [0xC0C1, 0xC138, 0x20, 0xD480, 0xC774, 0xB97C, 0x20, 0xC0DD, 0xC131,
     0xD558, 0xC9C0, 0x20, 0xBABB, 0xD588, 0xC2B5, 0xB2C8, 0xB2E4, 0x2E]"

definition unknown_error_message :: jsstring where
  "unknown_error_message = [0xC54C, 0x20, 0xC218, 0x20, 0xC5C6, 0xB294, 0x20, 0xC624, 0xB958]"

definition safety_message :: jsstring where
  "safety_message = [0xCF58, 0xD150, 0xCE20, 0x20, 0xBCF4, 0xC548, 0x20, 0xC815, 0xCC45, 0xC5D0,
     0x20, 0xC758, 0xD574, 0x20, 0xCC28, 0xB2E8, 0xB418, 0xC5C8, 0xC2B5, 0xB2C8, 0xB2E4, 0x2E]"

definition failure_prefix :: jsstring where
  "failure_prefix = [0xBD84, 0xC11D, 0x20, 0xC2E4, 0xD328, 0x3A, 0x20]"

definition timeout_message_15 :: jsstring where
  "timeout_message_15 = [0xC751, 0xB2F5, 0x20, 0xC2DC, 0xAC04, 0xC774, 0x20, 0xCD08, 0xACFC,
     0xB418, 0xC5C8, 0xC2B5, 0xB2C8, 0xB2E4, 0x2E]"

definition timeout_message_45 :: jsstring where
  "timeout_message_45 = [0xC751, 0xB2F5, 0x20, 0xC2DC, 0xAC04, 0xC774, 0x20, 0xCD08, 0xACFC,
     0xB418, 0xC5C8, 0xC2B5, 0xB2C8, 0xB2E4, 0x20, 0x28, 0x34, 0x35, 0xCD08, 0x29, 0x2E]"

definition SPLIT :: jsstring where
  "SPLIT = js ''---SPLIT---''"

text \<open>\<open>await Promise.race([apiCall, timeoutCall])\<close>: the response, or what is thrown.\<close>

definition race :: "api_settle \<Rightarrow> jsstring \<Rightarrow> js_error + ApiResponse" where
  "race behaviour timeoutMessage =
    (case behaviour of
       ApiResolved response \<Rightarrow> Inr response
     | ApiRejected err \<Rightarrow> Inl err
     | ApiPending \<Rightarrow> Inl (Error timeoutMessage))"

text \<open>\<open>response.text || "..."\<close>: undefined and the empty string are falsy.\<close>

definition fullText_of :: "ApiResponse \<Rightarrow> jsstring" where
  "fullText_of response =
    (case response_text response of
       None \<Rightarrow> no_result_message
     | Some t \<Rightarrow> if t = [] then no_result_message else t)"

text \<open>The \<open>catch\<close> block, the same in both versions of the module.\<close>

definition catch_block :: "js_error \<Rightarrow> SolveResult" where
  "catch_block err =
    (let errorMessage = (if message err = [] then unknown_error_message else message err);
         errorMessage = (if includes_str errorMessage (js ''SAFETY'') then safety_message
                         else errorMessage)
     in \<lparr> text_res = js ''Error'', reasoning_res = failure_prefix @ errorMessage,
          sources_res = [] \<rparr>)"

text \<open>
  The \<open>try\<close> block. \<open>split\<close> never returns an empty array; were \<open>parts[0]\<close> undefined,
  \<open>trim\<close> on it would throw.
\<close>

definition try_block :: "jsstring \<Rightarrow> api_settle \<Rightarrow> js_error + SolveResult" where
  "try_block base64Image behaviour =
    (case race behaviour timeout_message_15 of
       Inl err \<Rightarrow> Inl err
     | Inr response \<Rightarrow>
         (case split_str SPLIT (fullText_of response) of
            [] \<Rightarrow> Inl (Error (js ''TypeError''))
          | p0 # rest \<Rightarrow>
              let text = trim p0;
                  text = trim (remove_periods (remove_bold text));
                  reasoning = (case rest of [] \<Rightarrow> no_reasoning_message | p1 # _ \<Rightarrow> trim p1)
              in Inr \<lparr> text_res = text, reasoning_res = reasoning, sources_res = [] \<rparr>))"

definition solveProblemFromImage :: client where
  "solveProblemFromImage base64Image behaviour =
    (case try_block base64Image behaviour of
       Inr res \<Rightarrow> Inr res
     | Inl err \<Rightarrow> Inr (catch_block err))"

section \<open>The second version of geminiService.ts\<close>

text \<open>
  The other version of the module (search grounding, a timeout of 45 seconds) validates
  the answer. \<open>String.prototype.toUpperCase\<close> follows the Unicode tables of the runtime
  and is a parameter; \<open>uppercases_plain\<close> says what is used of it: on ASCII and white
  space it maps code unit by code unit, changing the letters \<open>a\<close> to \<open>z\<close> only.
\<close>

definition uppercases_plain :: "(jsstring \<Rightarrow> jsstring) \<Rightarrow> bool" where
  "uppercases_plain toUpperCase \<longleftrightarrow>
     (\<forall>s. list_all (\<lambda>c. c < 0x80 \<or> is_ws c) s \<longrightarrow> toUpperCase s = map ascii_upper s)"

definition toUpperCase_ascii :: "jsstring \<Rightarrow> jsstring" where
  "toUpperCase_ascii s = map ascii_upper s"

definition UNKNOWN :: jsstring where
  "UNKNOWN = js ''UNKNOWN''"

definition ERROR :: jsstring where
  "ERROR = js ''ERROR''"

text \<open>The class \<open>[A-E1-5]\<close> under the flag \<open>i\<close>, and \<open>[A-E1-5,\s]\<close>.\<close>

definition is_choice :: "jschar \<Rightarrow> bool" where
  "is_choice c \<longleftrightarrow> c \<in> set (js ''ABCDEabcde12345'')"

definition is_valid_char :: "jschar \<Rightarrow> bool" where
  "is_valid_char c \<longleftrightarrow> is_choice c \<or> c = 0x2C \<or> is_ws c"

text \<open>The block \<open>Answer Validation Logic\<close>, from \<open>rawText\<close> to \<open>text\<close>.\<close>

definition validate_answer :: "(jsstring \<Rightarrow> jsstring) \<Rightarrow> jsstring \<Rightarrow> jsstring" where
  "validate_answer toUpperCase rawText =
    (let text = rawText;
         upperText = toUpperCase text
     in if includes_str upperText UNKNOWN then UNKNOWN
        else
          let isValidChars = (text \<noteq> [] \<and> list_all is_valid_char text);
              isShortEnough = (length text \<le> 15)
          in if \<not> isValidChars \<or> \<not> isShortEnough then
               (case text of
                  [] \<Rightarrow> ERROR
                | c # cs \<Rightarrow>
                    if is_choice c \<and> (case cs of [] \<Rightarrow> True | d # _ \<Rightarrow> is_ws d)
                    then toUpperCase [c] else ERROR)
             else join (js '', '')
                    (filter (\<lambda>t. t \<noteq> []) (split_str (js '','') (remove_ws (toUpperCase text)))))"

text \<open>
  \<open>chunks.map(chunk => chunk.web).filter(web => web && web.uri && web.title)\<close>, then the
  pair of \<open>uri\<close> and \<open>title\<close>.
\<close>

definition sources_of :: "GroundingChunk list \<Rightarrow> Source list" where
  "sources_of chunks =
    map (\<lambda>web. \<lparr> uri = uri web, title = title web \<rparr>)
      (concat (map (\<lambda>chunk. case chunk of None \<Rightarrow> []
                 | Some web \<Rightarrow> if uri web \<noteq> [] \<and> title web \<noteq> [] then [web] else []) chunks))"

definition try_block_search ::
  "(jsstring \<Rightarrow> jsstring) \<Rightarrow> jsstring \<Rightarrow> api_settle \<Rightarrow> js_error + SolveResult" where
  "try_block_search toUpperCase base64Image behaviour =
    (case race behaviour timeout_message_45 of
       Inl err \<Rightarrow> Inl err
     | Inr response \<Rightarrow>
         (case split_str SPLIT (fullText_of response) of
            [] \<Rightarrow> Inl (Error (js ''TypeError''))
          | p0 # rest \<Rightarrow>
              let rawText = trim (strip_label (js ''Answer'')
                              (strip_label [0xC815, 0xB2F5] (remove_bold (trim p0))));
                  text = validate_answer toUpperCase rawText;
                  reasoning = (case rest of [] \<Rightarrow> no_reasoning_message | p1 # _ \<Rightarrow> trim p1);
                  chunks = (case groundingChunks response of None \<Rightarrow> [] | Some cs \<Rightarrow> cs)
              in Inr \<lparr> text_res = text, reasoning_res = reasoning,
                      sources_res = sources_of chunks \<rparr>))"

definition solveProblemFromImage_search :: "(jsstring \<Rightarrow> jsstring) \<Rightarrow> client" where
  "solveProblemFromImage_search toUpperCase base64Image behaviour =
    (case try_block_search toUpperCase base64Image behaviour of
       Inr res \<Rightarrow> Inr res
     | Inl err \<Rightarrow> Inr (catch_block err))"

section \<open>App.tsx: the scan orchestrator\<close>

definition AUTO_SCAN_INTERVAL_MS :: int where
  "AUTO_SCAN_INTERVAL_MS = 30000"

text \<open>
  The browser's timer table: \<open>setInterval\<close> and \<open>setTimeout\<close> draw handles from one
  pool of positive integers and never reuse one. A timer holds its callback and its delay.
\<close>

datatype callback = PerformScan | CountdownTick

datatype timer = Interval callback int | Timeout callback int

text \<open>
  The component's state (\<open>useState\<close>, \<open>useRef\<close>), then the environment it lives in: the
  live timers, the next free handle, and the suspended continuations of \<open>performScan\<close>,
  each waiting at \<open>await solveProblemFromImage(imageBase64)\<close> with its \<open>newId\<close>.
\<close>

record App =
  isActive :: bool
  results :: "ScanResult list"
  timeUntilNextScan :: int
  intervalRef :: "nat option"
  timerRef :: "nat option"
  isProcessingRef :: bool
  timers :: "(nat \<times> timer) list"
  nextTimerId :: nat
  awaiting :: "(jsstring \<times> jsstring) list"

text \<open>
  What one call of \<open>performScan\<close> reads from outside: \<open>cameraRef.current\<close> (\<open>None\<close> when
  null), and the two readings of \<open>Date.now()\<close>, the first for \<open>id\<close>, the second for
  \<open>timestamp\<close>.
\<close>

record scan_env =
  cameraRef :: "CameraHandle option"
  now_id :: nat
  now_timestamp :: nat

text \<open>The calls \<open>performScan\<close> makes, in program order.\<close>

datatype action = ConsoleLog | Capture | Lock | SetResults | SetTimeUntilNextScan
  | SolveProblemFromImage jsstring

text \<open>
  \<open>performScan\<close> up to its \<open>await\<close>. The result is the new state and the calls made.
\<close>

definition performScan :: "scan_env \<Rightarrow> App \<Rightarrow> App \<times> action list" where
  "performScan env s =
    (case cameraRef env of
       None \<Rightarrow> (s, [])
     | Some handle \<Rightarrow>
         if isProcessingRef s then (s, [ConsoleLog])
         else
           (case handle of
              None \<Rightarrow> (s, [Capture])
            | Some imageBase64 \<Rightarrow>
                if imageBase64 = [] then (s, [Capture])
                else
                  let newId = toString (now_id env);
                      newResult = \<lparr> id_scan = newId, timestamp = now_timestamp env,
                        imageUrl = imageBase64, text_scan = [], reasoning = Some [],
                        sources = [], loading = True, error = None \<rparr>
                  in (s \<lparr> isProcessingRef := True,
                          results := newResult # results s,
                          timeUntilNextScan := AUTO_SCAN_INTERVAL_MS,
                          awaiting := awaiting s @ [(newId, imageBase64)] \<rparr>,
                      [Capture, Lock, SetResults, SetTimeUntilNextScan,
                       SolveProblemFromImage imageBase64])))"

text \<open>
  The rest of \<open>performScan\<close>, run when the awaited promise settles: the \<open>try\<close> branch on
  fulfilment, the \<open>catch\<close> branch on rejection, then \<open>finally\<close>.
\<close>

definition analysis_failed :: jsstring where
  "analysis_failed = [0xBD84, 0xC11D, 0x20, 0xC2E4, 0xD328]"

definition performScan_settled :: "jsstring \<Rightarrow> js_error + SolveResult \<Rightarrow> App \<Rightarrow> App" where
  "performScan_settled newId outcome s =
    (case outcome of
       Inr res \<Rightarrow>
         s \<lparr> results := map (\<lambda>r. if id_scan r = newId
                 then r \<lparr> loading := False, text_scan := text_res res,
                         reasoning := Some (reasoning_res res), sources := sources_res res \<rparr>
                 else r) (results s) \<rparr>
     | Inl err \<Rightarrow>
         s \<lparr> results := map (\<lambda>r. if id_scan r = newId
                 then r \<lparr> loading := False,
                         error := Some (if message err = [] then analysis_failed
                                        else message err) \<rparr>
                 else r) (results s) \<rparr>)
    \<lparr> isProcessingRef := False \<rparr>"

subsection \<open>Timers and effects\<close>

definition setTimeout :: "callback \<Rightarrow> int \<Rightarrow> App \<Rightarrow> nat \<times> App" where
  "setTimeout cb delay s =
    (nextTimerId s,
     s \<lparr> timers := timers s @ [(nextTimerId s, Timeout cb delay)],
         nextTimerId := nextTimerId s + 1 \<rparr>)"

definition setInterval :: "callback \<Rightarrow> int \<Rightarrow> App \<Rightarrow> nat \<times> App" where
  "setInterval cb delay s =
    (nextTimerId s,
     s \<lparr> timers := timers s @ [(nextTimerId s, Interval cb delay)],
         nextTimerId := nextTimerId s + 1 \<rparr>)"

definition clearInterval :: "nat \<Rightarrow> App \<Rightarrow> App" where
  "clearInterval h s = s \<lparr> timers := filter (\<lambda>(i, t). i \<noteq> h) (timers s) \<rparr>"

text \<open>\<open>if (ref.current) clearInterval(ref.current)\<close>: null and 0 are falsy.\<close>

definition clearIfSet :: "nat option \<Rightarrow> App \<Rightarrow> App" where
  "clearIfSet r s = (case r of None \<Rightarrow> s | Some h \<Rightarrow> if h = 0 then s else clearInterval h s)"

text \<open>The countdown effect (\<open>Timer logic for countdown\<close>), its body and its cleanup.\<close>

definition countdownEffect :: "App \<Rightarrow> App" where
  "countdownEffect s =
    (if isActive s then
       (let (h, s1) = setInterval CountdownTick 1000 s in s1 \<lparr> timerRef := Some h \<rparr>)
     else
       (clearIfSet (timerRef s) s) \<lparr> timeUntilNextScan := AUTO_SCAN_INTERVAL_MS \<rparr>)"

definition countdownCleanup :: "App \<Rightarrow> App" where
  "countdownCleanup s = clearIfSet (timerRef s) s"

text \<open>The scan effect (\<open>Logic for triggering scan\<close>), its body and its cleanup.\<close>

definition scanEffect :: "App \<Rightarrow> App" where
  "scanEffect s =
    (if isActive s then
       (let (h, s1) = setInterval PerformScan AUTO_SCAN_INTERVAL_MS s
        in s1 \<lparr> intervalRef := Some h \<rparr>)
     else clearIfSet (intervalRef s) s)"

definition scanCleanup :: "App \<Rightarrow> App" where
  "scanCleanup s = clearIfSet (intervalRef s) s"

text \<open>
  When \<open>isActive\<close> has changed, both effects depend on it: React runs their cleanups, then
  their bodies, in the order of declaration.
\<close>

definition runEffects :: "App \<Rightarrow> App" where
  "runEffects s = scanEffect (countdownEffect (scanCleanup (countdownCleanup s)))"

text \<open>The body of the countdown interval's callback.\<close>

definition countdownTick :: "App \<Rightarrow> App" where
  "countdownTick s =
    s \<lparr> timeUntilNextScan :=
          (let next = timeUntilNextScan s - 1000
           in if next \<le> 0 then AUTO_SCAN_INTERVAL_MS else next) \<rparr>"

definition handleToggle :: "App \<Rightarrow> App" where
  "handleToggle s =
    (let newState = \<not> isActive s;
         s1 = s \<lparr> isActive := newState \<rparr>
     in if newState then
          (snd (setTimeout PerformScan 1500 s1)) \<lparr> timeUntilNextScan := AUTO_SCAN_INTERVAL_MS \<rparr>
        else s1)"

text \<open>
  \<open>toggleActive()\<close> of the specification: the click handler, then the render it causes
  with its effects.
\<close>

definition toggleActive :: "App \<Rightarrow> App" where
  "toggleActive s = runEffects (handleToggle s)"

subsection \<open>The event loop\<close>

text \<open>
  Every handler runs to completion. The events: a click on the toggle; a click on the
  scan button, which is rendered only while \<open>isActive\<close>; a live timer firing; and the
  promise of a suspended \<open>performScan\<close> settling. A timeout leaves the timer table when it
  fires. An event that cannot happen in the state gives \<open>None\<close>.
\<close>

datatype event = Toggle | ScanNow scan_env | Fire nat scan_env | Settle nat api_settle

definition runCallback :: "callback \<Rightarrow> scan_env \<Rightarrow> App \<Rightarrow> App" where
  "runCallback cb env s =
    (case cb of PerformScan \<Rightarrow> fst (performScan env s) | CountdownTick \<Rightarrow> countdownTick s)"

definition step :: "client \<Rightarrow> event \<Rightarrow> App \<Rightarrow> App option" where
  "step solve e s =
    (case e of
       Toggle \<Rightarrow> Some (toggleActive s)
     | ScanNow env \<Rightarrow> if isActive s then Some (fst (performScan env s)) else None
     | Fire h env \<Rightarrow>
         (case map_of (timers s) h of
            None \<Rightarrow> None
          | Some (Interval cb delay) \<Rightarrow> Some (runCallback cb env s)
          | Some (Timeout cb delay) \<Rightarrow> Some (runCallback cb env (clearInterval h s)))
     | Settle k behaviour \<Rightarrow>
         if k < length (awaiting s) then
           (let (newId, imageBase64) = awaiting s ! k;
                s1 = s \<lparr> awaiting := take k (awaiting s) @ drop (Suc k) (awaiting s) \<rparr>
            in Some (performScan_settled newId (solve imageBase64 behaviour) s1))
         else None)"

fun run :: "client \<Rightarrow> App \<Rightarrow> event list \<Rightarrow> App option" where
  "run solve s [] = Some s"
| "run solve s (e # es) = (case step solve e s of None \<Rightarrow> None | Some s1 \<Rightarrow> run solve s1 es)"

text \<open>The state after mounting: both effects have run their inactive branch.\<close>

definition initial :: App where
  "initial = \<lparr> isActive = False, results = [], timeUntilNextScan = AUTO_SCAN_INTERVAL_MS,
     intervalRef = None, timerRef = None, isProcessingRef = False,
     timers = [], nextTimerId = 1, awaiting = [] \<rparr>"

section \<open>Observations on the state\<close>

text \<open>
  The specification's names: \<open>active\<close> is \<open>isActive\<close>, \<open>locked\<close> is \<open>isProcessingRef\<close>,
  \<open>history\<close> is \<open>results\<close>, \<open>countdown\<close> is \<open>timeUntilNextScan\<close>, \<open>requestScan()\<close> is
  \<open>performScan\<close>. A record has no status field; the card that renders it shows a spinner
  while \<open>loading\<close> and an error badge when \<open>error\<close> is set.
\<close>

datatype status = Pending | Complete | Failed

definition status_of :: "ScanResult \<Rightarrow> status" where
  "status_of r = (if loading r then Pending else if error r \<noteq> None then Failed else Complete)"

text \<open>The periods of the live periodic scan timers, and the delays of the pending scans.\<close>

fun periodic_scans :: "(nat \<times> timer) list \<Rightarrow> int list" where
  "periodic_scans [] = []"
| "periodic_scans ((h, Interval PerformScan period) # ts) = period # periodic_scans ts"
| "periodic_scans (_ # ts) = periodic_scans ts"

fun scheduled_scans :: "(nat \<times> timer) list \<Rightarrow> int list" where
  "scheduled_scans [] = []"
| "scheduled_scans ((h, Timeout PerformScan delay) # ts) = delay # scheduled_scans ts"
| "scheduled_scans (_ # ts) = scheduled_scans ts"

text \<open>When \<open>performScan\<close> gets past its three early returns, and the record it creates.\<close>

definition scan_starts :: "scan_env \<Rightarrow> App \<Rightarrow> bool" where
  "scan_starts env s \<longleftrightarrow>
     \<not> isProcessingRef s \<and> (\<exists>img. cameraRef env = Some (Some img) \<and> img \<noteq> [])"

definition frame_of :: "scan_env \<Rightarrow> jsstring" where
  "frame_of env = (case cameraRef env of Some (Some img) \<Rightarrow> img | _ \<Rightarrow> [])"

definition newResult_of :: "scan_env \<Rightarrow> ScanResult" where
  "newResult_of env = \<lparr> id_scan = toString (now_id env), timestamp = now_timestamp env,
       imageUrl = frame_of env, text_scan = [], reasoning = Some [],
       sources = [], loading = True, error = None \<rparr>"

subsection \<open>Invariants\<close>

text \<open>
  The lock and the pending records: a continuation is suspended exactly while the lock
  is held, there is at most one, and the records still loading are its own.
\<close>

definition lock_inv :: "App \<Rightarrow> bool" where
  "lock_inv s \<longleftrightarrow>
     length (awaiting s) = (if isProcessingRef s then 1 else 0)
     \<and> length (filter loading (results s)) = length (awaiting s)
     \<and> (\<forall>r \<in> set (results s). loading r \<longrightarrow> (\<exists>p \<in> set (awaiting s). fst p = id_scan r))"

text \<open>
  The timer table: handles are positive and below the next free one; an interval is live
  only while active and is the one its ref holds; no ref holds the handle of a timeout.
\<close>

fun timer_ok :: "App \<Rightarrow> nat \<times> timer \<Rightarrow> bool" where
  "timer_ok s (h, Interval PerformScan delay) \<longleftrightarrow>
     0 < h \<and> h < nextTimerId s \<and> isActive s \<and> intervalRef s = Some h"
| "timer_ok s (h, Interval CountdownTick delay) \<longleftrightarrow>
     0 < h \<and> h < nextTimerId s \<and> isActive s \<and> timerRef s = Some h"
| "timer_ok s (h, Timeout cb delay) \<longleftrightarrow>
     0 < h \<and> h < nextTimerId s \<and> intervalRef s \<noteq> Some h \<and> timerRef s \<noteq> Some h"

definition timer_inv :: "App \<Rightarrow> bool" where
  "timer_inv s \<longleftrightarrow>
     0 < nextTimerId s
     \<and> list_all (timer_ok s) (timers s)
     \<and> (\<forall>h. intervalRef s = Some h \<longrightarrow> h < nextTimerId s)
     \<and> (\<forall>h. timerRef s = Some h \<longrightarrow> h < nextTimerId s)"

text \<open>What \<open>if (ref.current) clearInterval(ref.current)\<close> leaves of a timer table.\<close>

definition clears :: "nat option \<Rightarrow> (nat \<times> timer) list \<Rightarrow> (nat \<times> timer) list" where
  "clears r ts =
    (case r of None \<Rightarrow> ts | Some h \<Rightarrow> if h = 0 then ts else filter (\<lambda>(i, t). i \<noteq> h) ts)"

subsection \<open>Sample inputs\<close>

definition frame :: jsstring where
  "frame = js ''data:image/jpeg;base64,AAAA''"

definition env_at :: "nat \<Rightarrow> scan_env" where
  "env_at t = \<lparr> cameraRef = Some (Some frame), now_id = t, now_timestamp = t \<rparr>"

definition reply :: "string \<Rightarrow> api_settle" where
  "reply t = ApiResolved \<lparr> response_text = Some (js t), groundingChunks = None \<rparr>"

text \<open>The state after switching on and starting a scan at clock reading 5.\<close>

definition scanning :: App where
  "scanning = \<lparr> isActive = True,
     results = [\<lparr> id_scan = js ''5'', timestamp = 5, imageUrl = frame, text_scan = [],
                  reasoning = Some [], sources = [], loading = True, error = None \<rparr>],
     timeUntilNextScan = 30000, intervalRef = Some 3, timerRef = Some 2,
     isProcessingRef = True,
     timers = [(1, Timeout PerformScan 1500), (2, Interval CountdownTick 1000),
               (3, Interval PerformScan 30000)],
     nextTimerId = 4, awaiting = [(js ''5'', frame)] \<rparr>"

text \<open>
  The fields of a record that are written once, when it is created. The environment an
  event hands to \<open>performScan\<close>, if the event calls it in the state: a click on the scan
  button, or the firing of a timer whose callback is \<open>performScan\<close>. The scan an event
  starts, if any: \<open>Date.now()\<close> is read only then, so \<open>clock_reads\<close> lists the environments
  whose clock readings a run takes, in order. The records of a later state that stand at
  the positions of the records of an earlier one, counted from the oldest.
\<close>

definition fixed_fields :: "ScanResult \<Rightarrow> jsstring \<times> nat \<times> jsstring" where
  "fixed_fields r = (id_scan r, timestamp r, imageUrl r)"

definition request_of :: "event \<Rightarrow> App \<Rightarrow> scan_env option" where
  "request_of e s =
    (case e of
       ScanNow env \<Rightarrow> if isActive s then Some env else None
     | Fire h env \<Rightarrow>
         (case map_of (timers s) h of
            Some (Interval PerformScan delay) \<Rightarrow> Some env
          | Some (Timeout PerformScan delay) \<Rightarrow> Some env
          | _ \<Rightarrow> None)
     | _ \<Rightarrow> None)"

definition started :: "event \<Rightarrow> App \<Rightarrow> scan_env list" where
  "started e s =
    (case request_of e s of
       Some env \<Rightarrow> if \<not> isProcessingRef s \<and> frame_of env \<noteq> [] then [env] else []
     | None \<Rightarrow> [])"

fun clock_reads :: "client \<Rightarrow> App \<Rightarrow> event list \<Rightarrow> scan_env list" where
  "clock_reads solve s [] = []"
| "clock_reads solve s (e # es) =
     (case step solve e s of
        None \<Rightarrow> []
      | Some s1 \<Rightarrow> started e s @ clock_reads solve s1 es)"

definition older :: "App \<Rightarrow> App \<Rightarrow> ScanResult list" where
  "older s s' = drop (length (results s') - length (results s)) (results s')"

text \<open>
  A record settles when it stays as it is, or goes from loading to not loading with its
  fixed fields unchanged.
\<close>

definition settles :: "ScanResult \<Rightarrow> ScanResult \<Rightarrow> bool" where
  "settles r r' \<longleftrightarrow> r' = r \<or> (loading r \<and> \<not> loading r' \<and> fixed_fields r' = fixed_fields r)"

text \<open>
  The ids of the history are the decimal strings of strictly decreasing numbers, each
  below the readings for \<open>id\<close> still to come.
\<close>

definition ids_inv :: "App \<Rightarrow> scan_env list \<Rightarrow> bool" where
  "ids_inv s fut \<longleftrightarrow>
     (\<exists>ns. map id_scan (results s) = map toString ns \<and> sorted_wrt (>) ns
        \<and> (\<forall>n \<in> set ns. \<forall>env \<in> set fut. n < now_id env))"

text \<open>
  How often each record of the history has been changed since it was created, along a
  run: a record that a step prepends starts at 0, and a step that leaves another record
  at a position counts 1 more there. A pending record has not been changed, a settled
  one has been changed once.
\<close>

definition bump :: "App \<Rightarrow> App \<Rightarrow> nat list \<Rightarrow> nat list" where
  "bump s s1 counts =
     replicate (length (results s1) - length (results s)) 0 @
     map (\<lambda>((r, r1), n). if r1 = r then n else Suc n)
       (zip (zip (results s) (older s s1)) counts)"

fun mutations :: "client \<Rightarrow> App \<Rightarrow> nat list \<Rightarrow> event list \<Rightarrow> nat list" where
  "mutations solve s counts [] = counts"
| "mutations solve s counts (e # es) =
     (case step solve e s of
        None \<Rightarrow> counts
      | Some s1 \<Rightarrow> mutations solve s1 (bump s s1 counts) es)"

definition once_settled :: "ScanResult \<Rightarrow> nat" where
  "once_settled r = (if loading r then 0 else 1)"

text \<open>The number a string of decimal digits stands for.\<close>

definition from_digits :: "jsstring \<Rightarrow> nat" where
  "from_digits ds = foldl (\<lambda>a c. 10 * a + (unat c - 48)) 0 ds"

text \<open>Records and states of the sample runs used below.\<close>

definition pending_at :: "nat \<Rightarrow> ScanResult" where
  "pending_at t = \<lparr> id_scan = toString t, timestamp = t, imageUrl = frame, text_scan = [],
     reasoning = Some [], sources = [], loading = True, error = None \<rparr>"

definition answered :: "nat \<Rightarrow> string \<Rightarrow> jsstring \<Rightarrow> ScanResult" where
  "answered t answer why = (pending_at t) \<lparr> text_scan := js answer, reasoning := Some why,
     loading := False \<rparr>"

definition switched_on :: App where
  "switched_on = \<lparr> isActive = True, results = [], timeUntilNextScan = 30000,
     intervalRef = Some 3, timerRef = Some 2, isProcessingRef = False,
     timers = [(1, Timeout PerformScan 1500), (2, Interval CountdownTick 1000),
               (3, Interval PerformScan 30000)],
     nextTimerId = 4, awaiting = [] \<rparr>"

definition switched_off :: App where
  "switched_off = switched_on \<lparr> isActive := False, timers := [(1, Timeout PerformScan 1500)] \<rparr>"

text \<open>
  With the camera switched off the video has no pixels, and the canvas of width and
  height 0 gives the data URL \<open>data:,\<close>, which is what \<open>capture()\<close> then returns.
\<close>

definition blank_canvas :: jsstring where
  "blank_canvas = js ''data:,''"

definition camera_off :: scan_env where
  "camera_off = \<lparr> cameraRef = Some (Some blank_canvas), now_id = 5, now_timestamp = 5 \<rparr>"

definition stale_scan :: App where
  "stale_scan = switched_off \<lparr>
     results := [(pending_at 5) \<lparr> imageUrl := blank_canvas \<rparr>], isProcessingRef := True,
     timers := [], awaiting := [(js ''5'', blank_canvas)] \<rparr>"

definition first_done :: "string \<Rightarrow> App" where
  "first_done answer = switched_on \<lparr> results := [answered 5 answer no_reasoning_message] \<rparr>"

definition second_scan :: App where
  "second_scan = switched_on \<lparr>
     results := [pending_at 7, answered 5 ''B'' no_reasoning_message],
     isProcessingRef := True, awaiting := [(js ''7'', frame)] \<rparr>"

definition both_done :: App where
  "both_done = switched_on \<lparr>
     results := [answered 7 ''A'' (js ''why''), answered 5 ''B'' no_reasoning_message] \<rparr>"

definition collided :: App where
  "collided = switched_on \<lparr>
     results := [answered 5 ''B'' no_reasoning_message, answered 5 ''B'' no_reasoning_message] \<rparr>"

text \<open>
  A run with a tick of the countdown between two scans, a run whose second scan starts
  at the clock reading of the first, and the state after a run whose clock steps back
  from 7 to 5 between two scans.
\<close>

definition with_tick :: "event list" where
  "with_tick = [Toggle, ScanNow (env_at 5), Settle 0 (reply ''B''), Fire 2 (env_at 0),
     ScanNow (env_at 7)]"

definition same_reading :: "event list" where
  "same_reading = [Toggle, ScanNow (env_at 5), Settle 0 (reply ''A''), ScanNow (env_at 5),
     Settle 0 (reply ''B'')]"


definition no_frame :: scan_env where
  "no_frame = \<lparr> cameraRef = Some None, now_id = 5, now_timestamp = 5 \<rparr>"

definition timed_out :: App where
  "timed_out = scanning \<lparr>
     results := [\<lparr> id_scan = js ''5'', timestamp = 5, imageUrl = frame, text_scan = js ''Error'',
                  reasoning = Some (failure_prefix @ timeout_message_15), sources = [],
                  loading = False, error = None \<rparr>],
     isProcessingRef := False, awaiting := [] \<rparr>"

definition timed_out_search :: App where
  "timed_out_search = scanning \<lparr>
     results := [\<lparr> id_scan = js ''5'', timestamp = 5, imageUrl = frame, text_scan = js ''Error'',
                  reasoning = Some (failure_prefix @ timeout_message_45), sources = [],
                  loading = False, error = None \<rparr>],
     isProcessingRef := False, awaiting := [] \<rparr>"

text \<open>
  Shapes of an answer text: the upper-case choices \<open>A\<close> to \<open>E\<close> and \<open>1\<close> to \<open>5\<close>; a text
  with no white space at either end; a clean answer, which is not empty, is trimmed, and
  has no asterisk, hyphen or period.
\<close>

definition is_upper_choice :: "jschar \<Rightarrow> bool" where
  "is_upper_choice c \<longleftrightarrow> c \<in> set (js ''ABCDE12345'')"

definition trimmed :: "jsstring \<Rightarrow> bool" where
  "trimmed t \<longleftrightarrow> t = [] \<or> (\<not> is_ws (hd t) \<and> \<not> is_ws (last t))"

definition clean :: "jsstring \<Rightarrow> bool" where
  "clean a \<longleftrightarrow> a \<noteq> [] \<and> trimmed a \<and> 0x2A \<notin> set a \<and> 0x2D \<notin> set a \<and> 0x2E \<notin> set a"

text \<open>
  The answer part of a reply: the text in front of the first occurrence of the split
  marker, or the whole text when it has no marker. The raw answer that the second
  version of the module cleans out of that part. Its two tests on the raw answer,
  \<open>isValidChars && isShortEnough\<close> and the pattern \<open>/^([A-E1-5])(\s|$)/i\<close>. The text of
  a settled call, and a response with a text and no grounding.
\<close>

definition marker_at :: "nat \<Rightarrow> jsstring \<Rightarrow> bool" where
  "marker_at i t \<longleftrightarrow> prefix SPLIT (drop i t)"

definition before_marker :: "jsstring \<Rightarrow> jsstring \<Rightarrow> bool" where
  "before_marker p0 t \<longleftrightarrow>
     prefix p0 t \<and> list_all (\<lambda>i. \<not> marker_at i t) [0..<length p0]
     \<and> (p0 = t \<or> marker_at (length p0) t)"

definition rawText_of :: "jsstring \<Rightarrow> jsstring" where
  "rawText_of p0 =
     trim (strip_label (js ''Answer'') (strip_label [0xC815, 0xB2F5] (remove_bold (trim p0))))"

definition short_answer :: "jsstring \<Rightarrow> bool" where
  "short_answer raw \<longleftrightarrow> raw \<noteq> [] \<and> list_all is_valid_char raw \<and> length raw \<le> 15"

definition leading_choice :: "jsstring \<Rightarrow> bool" where
  "leading_choice raw \<longleftrightarrow>
     raw \<noteq> [] \<and> is_choice (hd raw) \<and> (tl raw = [] \<or> is_ws (hd (tl raw)))"

definition answerText :: "js_error + SolveResult \<Rightarrow> jsstring option" where
  "answerText settled = (case settled of Inr res \<Rightarrow> Some (text_res res) | Inl err \<Rightarrow> None)"

definition resolved :: "string \<Rightarrow> ApiResponse" where
  "resolved t = \<lparr> response_text = Some (js t), groundingChunks = None \<rparr>"

section \<open>Properties of the orchestrator\<close>

lemmas timer_defs = toggleActive_def runEffects_def scanEffect_def countdownEffect_def
  scanCleanup_def countdownCleanup_def clearIfSet_def clearInterval_def setInterval_def
  setTimeout_def handleToggle_def

lemmas run_defs = step_def timer_defs performScan_def performScan_settled_def runCallback_def
  countdownTick_def initial_def env_at_def frame_def reply_def js_def digit_def
  AUTO_SCAN_INTERVAL_MS_def Let_def

lemma run_scanning: "run solve initial [Toggle, ScanNow (env_at 5)] = Some scanning"
  by (simp add: run_defs scanning_def toString.simps)

subsection \<open>Frame lemmas\<close>

lemma toggleActive_frame [simp]:
  "results (toggleActive s) = results s"
  "awaiting (toggleActive s) = awaiting s"
  "isProcessingRef (toggleActive s) = isProcessingRef s"
  by (simp_all add: timer_defs Let_def split: option.splits)

lemma clearInterval_frame [simp]:
  "results (clearInterval h s) = results s"
  "awaiting (clearInterval h s) = awaiting s"
  "isProcessingRef (clearInterval h s) = isProcessingRef s"
  "timeUntilNextScan (clearInterval h s) = timeUntilNextScan s"
  "isActive (clearInterval h s) = isActive s"
  by (simp_all add: clearInterval_def)

lemma countdownTick_frame [simp]:
  "results (countdownTick s) = results s"
  "awaiting (countdownTick s) = awaiting s"
  "isProcessingRef (countdownTick s) = isProcessingRef s"
  by (simp_all add: countdownTick_def)

lemma performScan_skip: "\<not> scan_starts env s \<Longrightarrow> fst (performScan env s) = s"
  by (auto simp: performScan_def scan_starts_def split: option.splits)

lemma performScan_start:
  "scan_starts env s \<Longrightarrow> fst (performScan env s) =
     s \<lparr> isProcessingRef := True, results := newResult_of env # results s,
         timeUntilNextScan := AUTO_SCAN_INTERVAL_MS,
         awaiting := awaiting s @ [(toString (now_id env), frame_of env)] \<rparr>"
  by (auto simp: performScan_def scan_starts_def newResult_of_def frame_of_def Let_def
      split: option.splits)

subsection \<open>The lock invariant\<close>

lemma lock_inv_initial: "lock_inv initial"
  by (simp add: lock_inv_def initial_def)

lemma lock_inv_performScan: "lock_inv s \<Longrightarrow> lock_inv (fst (performScan env s))"
proof (cases "scan_starts env s")
  case False
  then show "lock_inv s \<Longrightarrow> ?thesis" by (simp add: performScan_skip)
next
  case True
  assume inv: "lock_inv s"
  from True have np: "\<not> isProcessingRef s" by (simp add: scan_starts_def)
  with inv have a0: "awaiting s = []" by (simp add: lock_inv_def)
  with inv have "length (filter loading (results s)) = 0" by (simp add: lock_inv_def)
  then have f0: "filter loading (results s) = []" by simp
  then have "\<forall>r \<in> set (results s). \<not> loading r" by (simp add: filter_empty_conv)
  then show ?thesis
    using a0 f0 by (simp add: performScan_start [OF True] lock_inv_def newResult_of_def)
qed

lemma lock_inv_settled:
  assumes inv: "lock_inv s" and k: "k < length (awaiting s)"
  shows "lock_inv (performScan_settled (fst (awaiting s ! k)) outcome
           (s \<lparr> awaiting := take k (awaiting s) @ drop (Suc k) (awaiting s) \<rparr>))"
proof -
  from inv k have len: "length (awaiting s) = 1"
    by (auto simp: lock_inv_def split: if_splits)
  with k have k0: "k = 0" by simp
  from len obtain p where p: "awaiting s = [p]" by (cases "awaiting s") auto
  from inv p have ids: "\<forall>r \<in> set (results s). loading r \<longrightarrow> id_scan r = fst p"
    by (auto simp: lock_inv_def)
  show ?thesis
    using ids
    by (cases outcome) (auto simp: performScan_settled_def lock_inv_def p k0 filter_empty_conv)
qed

lemma lock_inv_step: "lock_inv s \<Longrightarrow> step solve e s = Some s' \<Longrightarrow> lock_inv s'"
proof (cases e)
  case Toggle
  then show "lock_inv s \<Longrightarrow> step solve e s = Some s' \<Longrightarrow> ?thesis"
    by (auto simp: step_def lock_inv_def)
next
  case (ScanNow env)
  then show "lock_inv s \<Longrightarrow> step solve e s = Some s' \<Longrightarrow> ?thesis"
    by (auto simp: step_def lock_inv_performScan split: if_splits)
next
  case (Fire h env)
  have c: "lock_inv s \<Longrightarrow> lock_inv (clearInterval h s)" by (simp add: lock_inv_def)
  have t: "\<And>s. lock_inv s \<Longrightarrow> lock_inv (countdownTick s)" by (simp add: lock_inv_def)
  have r: "\<And>cb s. lock_inv s \<Longrightarrow> lock_inv (runCallback cb env s)"
    by (simp add: runCallback_def lock_inv_performScan t split: callback.splits)
  from Fire show "lock_inv s \<Longrightarrow> step solve e s = Some s' \<Longrightarrow> ?thesis"
    by (auto simp: step_def r c split: option.splits timer.splits)
next
  case (Settle k b)
  then show "lock_inv s \<Longrightarrow> step solve e s = Some s' \<Longrightarrow> ?thesis"
    using lock_inv_settled [of s k]
    by (auto simp: step_def Let_def split_def split: if_splits)
qed

lemma lock_inv_run: "lock_inv s \<Longrightarrow> run solve s evs = Some s' \<Longrightarrow> lock_inv s'"
  by (induction evs arbitrary: s) (auto split: option.splits dest: lock_inv_step)

subsection \<open>The timer invariant\<close>

lemma periodic_scans_append [simp]:
  "periodic_scans (xs @ ys) = periodic_scans xs @ periodic_scans ys"
  by (induction xs rule: periodic_scans.induct) auto

lemma scheduled_scans_append [simp]:
  "scheduled_scans (xs @ ys) = scheduled_scans xs @ scheduled_scans ys"
  by (induction xs rule: scheduled_scans.induct) auto

lemma timer_ok_inactive:
  "timer_ok s (h, t) \<Longrightarrow> \<not> isActive s \<Longrightarrow>
     (\<exists>cb d. t = Timeout cb d) \<and> intervalRef s \<noteq> Some h \<and> timerRef s \<noteq> Some h"
  by (cases "(s, (h, t))" rule: timer_ok.cases) auto

lemma inactive_filter_id:
  assumes "list_all (timer_ok s) ts" "\<not> isActive s"
    "intervalRef s = Some r \<or> timerRef s = Some r"
  shows "filter (\<lambda>(i, t). i \<noteq> r) ts = ts"
  using assms by (induction ts) (auto dest: timer_ok_inactive)

lemma inactive_no_periodic:
  assumes "list_all (timer_ok s) ts" "\<not> isActive s"
  shows "periodic_scans ts = []"
  using assms by (induction ts rule: periodic_scans.induct) auto

lemma toggle_on_timers:
  assumes "timer_inv s" "\<not> isActive s"
  shows "timers (toggleActive s) = timers s @
           [(nextTimerId s, Timeout PerformScan 1500),
            (nextTimerId s + 1, Interval CountdownTick 1000),
            (nextTimerId s + 2, Interval PerformScan AUTO_SCAN_INTERVAL_MS)]"
proof -
  from assms have ok: "list_all (timer_ok s) (timers s)" by (simp add: timer_inv_def)
  have k: "\<And>h. intervalRef s = Some h \<or> timerRef s = Some h \<Longrightarrow>
      filter (\<lambda>(i, t). i \<noteq> h) (timers s) = timers s \<and> h \<noteq> nextTimerId s"
    using assms inactive_filter_id [OF ok] by (auto simp: timer_inv_def)
  show ?thesis
    using assms(2) k
    by (auto simp: timer_defs Let_def split: option.splits)
qed

lemma filter_scheduled:
  assumes "list_all (timer_ok s) ts" "intervalRef s = Some a \<or> timerRef s = Some a"
  shows "scheduled_scans (filter (\<lambda>(i, t). i \<noteq> a) ts) = scheduled_scans ts"
  using assms by (induction ts rule: scheduled_scans.induct) auto

lemma filter_preserves_ok:
  "list_all (timer_ok s) ts \<Longrightarrow> list_all (timer_ok s) (filter P ts)"
  by (induction ts) auto

lemma timer_ok_cong:
  "nextTimerId s' = nextTimerId s \<Longrightarrow> isActive s' = isActive s \<Longrightarrow>
   intervalRef s' = intervalRef s \<Longrightarrow> timerRef s' = timerRef s \<Longrightarrow>
   timer_ok s' p = timer_ok s p"
  by (cases "(s, p)" rule: timer_ok.cases) auto

lemma clearIfSet_timers: "clearIfSet r s = s \<lparr> timers := clears r (timers s) \<rparr>"
  by (simp add: clearIfSet_def clears_def clearInterval_def split: option.splits)

lemma set_clears: "set (clears r ts) \<subseteq> set ts"
  by (auto simp: clears_def split: option.splits)

lemma in_clears:
  "p \<in> set (clears r ts) \<Longrightarrow> p \<in> set ts \<and> (\<forall>h. r = Some h \<and> 0 < h \<longrightarrow> fst p \<noteq> h)"
  by (auto simp: clears_def split: option.splits if_splits)

lemma clears_ok: "list_all (timer_ok s) ts \<Longrightarrow> list_all (timer_ok s) (clears r ts)"
  by (simp add: clears_def filter_preserves_ok split: option.splits)

lemma clears_scheduled:
  "list_all (timer_ok s) ts \<Longrightarrow> r = intervalRef s \<or> r = timerRef s \<Longrightarrow>
   scheduled_scans (clears r ts) = scheduled_scans ts"
  using filter_scheduled [of s ts] by (auto simp: clears_def split: option.splits)

lemma clears_intervalRef_periodic:
  "list_all (timer_ok s) ts \<Longrightarrow> periodic_scans (clears (intervalRef s) ts) = []"
proof (induction ts rule: periodic_scans.induct)
  case (2 h period ts)
  then show ?case by (auto simp: clears_def split: option.splits)
qed (auto simp: clears_def split: option.splits)

lemma toggle_off_state:
  assumes "isActive s"
  shows "toggleActive s = s \<lparr> isActive := False,
       timers := clears (intervalRef s) (clears (timerRef s)
                   (clears (intervalRef s) (clears (timerRef s) (timers s)))),
       timeUntilNextScan := AUTO_SCAN_INTERVAL_MS \<rparr>"
  using assms
  by (simp add: toggleActive_def runEffects_def scanEffect_def countdownEffect_def
      scanCleanup_def countdownCleanup_def handleToggle_def clearIfSet_timers Let_def)

lemma toggle_off:
  assumes "timer_inv s" "isActive s"
  shows "periodic_scans (timers (toggleActive s)) = []"
    and "scheduled_scans (timers (toggleActive s)) = scheduled_scans (timers s)"
    and "timeUntilNextScan (toggleActive s) = AUTO_SCAN_INTERVAL_MS"
    and "\<not> isActive (toggleActive s)"
proof -
  from assms have ok: "list_all (timer_ok s) (timers s)" by (simp add: timer_inv_def)
  show "timeUntilNextScan (toggleActive s) = AUTO_SCAN_INTERVAL_MS"
    and "\<not> isActive (toggleActive s)"
    by (simp_all add: toggle_off_state [OF assms(2)])
  show "periodic_scans (timers (toggleActive s)) = []"
    by (simp add: toggle_off_state [OF assms(2)] clears_intervalRef_periodic clears_ok ok)
  show "scheduled_scans (timers (toggleActive s)) = scheduled_scans (timers s)"
    by (simp add: toggle_off_state [OF assms(2)] clears_scheduled [of s] clears_ok ok)
qed

lemma toggle_on:
  assumes "timer_inv s" "\<not> isActive s"
  shows "periodic_scans (timers (toggleActive s)) = [AUTO_SCAN_INTERVAL_MS]"
    and "scheduled_scans (timers (toggleActive s)) = scheduled_scans (timers s) @ [1500]"
    and "timeUntilNextScan (toggleActive s) = AUTO_SCAN_INTERVAL_MS"
    and "isActive (toggleActive s)"
proof -
  from assms have ok: "list_all (timer_ok s) (timers s)" by (simp add: timer_inv_def)
  show "periodic_scans (timers (toggleActive s)) = [AUTO_SCAN_INTERVAL_MS]"
    by (simp add: toggle_on_timers [OF assms] inactive_no_periodic [OF ok assms(2)])
  show "scheduled_scans (timers (toggleActive s)) = scheduled_scans (timers s) @ [1500]"
    by (simp add: toggle_on_timers [OF assms])
  show "timeUntilNextScan (toggleActive s) = AUTO_SCAN_INTERVAL_MS"
    and "isActive (toggleActive s)"
    using assms(2) by (simp_all add: timer_defs Let_def split: option.splits)
qed

lemma toggle_on_fields:
  assumes "\<not> isActive s"
  shows "intervalRef (toggleActive s) = Some (nextTimerId s + 2)"
    and "timerRef (toggleActive s) = Some (nextTimerId s + 1)"
    and "nextTimerId (toggleActive s) = nextTimerId s + 3"
  using assms by (simp_all add: timer_defs Let_def split: option.splits)

lemma timer_ok_inactive_on:
  assumes "timer_ok s p" "\<not> isActive s" "isActive s'" "nextTimerId s' = nextTimerId s + 3"
    "intervalRef s' = Some (nextTimerId s + 2)" "timerRef s' = Some (nextTimerId s + 1)"
  shows "timer_ok s' p"
  using assms by (cases "(s, p)" rule: timer_ok.cases) auto

lemma timer_ok_off:
  assumes "timer_ok s p" "\<not> isActive s'" "nextTimerId s' = nextTimerId s"
    "intervalRef s' = intervalRef s" "timerRef s' = timerRef s"
    "\<forall>h. intervalRef s = Some h \<and> 0 < h \<longrightarrow> fst p \<noteq> h"
    "\<forall>h. timerRef s = Some h \<and> 0 < h \<longrightarrow> fst p \<noteq> h"
  shows "timer_ok s' p"
  using assms by (cases "(s, p)" rule: timer_ok.cases) auto

lemma timer_inv_toggle: "timer_inv s \<Longrightarrow> timer_inv (toggleActive s)"
proof (cases "isActive s")
  case False
  assume inv: "timer_inv s"
  then have ok: "list_all (timer_ok s) (timers s)" by (simp add: timer_inv_def)
  note f = toggle_on_fields [OF False] toggle_on(4) [OF inv False]
  have "list_all (timer_ok (toggleActive s)) (timers s)"
    using ok timer_ok_inactive_on [OF _ False f(4) f(3) f(1) f(2)]
    by (auto simp: list_all_iff)
  moreover have "0 < nextTimerId s" using inv by (simp add: timer_inv_def)
  ultimately show ?thesis
    by (simp add: timer_inv_def toggle_on_timers [OF inv False] f)
next
  case True
  assume inv: "timer_inv s"
  then have ok: "list_all (timer_ok s) (timers s)" by (simp add: timer_inv_def)
  let ?s' = "toggleActive s"
  have "timer_ok ?s' p" if "p \<in> set (timers ?s')" for p
  proof -
    from that have "p \<in> set (clears (intervalRef s) (clears (timerRef s)
                   (clears (intervalRef s) (clears (timerRef s) (timers s)))))"
      by (simp add: toggle_off_state [OF True])
    then have "p \<in> set (clears (timerRef s)
                   (clears (intervalRef s) (clears (timerRef s) (timers s))))"
      using set_clears by blast
    then have a: "p \<in> set (clears (intervalRef s) (clears (timerRef s) (timers s)))"
      using set_clears by blast
    from in_clears [OF a] have b: "\<forall>h. intervalRef s = Some h \<and> 0 < h \<longrightarrow> fst p \<noteq> h"
      and c: "p \<in> set (clears (timerRef s) (timers s))" by auto
    from in_clears [OF c] have d: "\<forall>h. timerRef s = Some h \<and> 0 < h \<longrightarrow> fst p \<noteq> h"
      and e: "p \<in> set (timers s)" by auto
    from ok e have "timer_ok s p" by (simp add: list_all_iff)
    then show ?thesis
      by (rule timer_ok_off) (use b d in \<open>simp_all add: toggle_off_state [OF True]\<close>)
  qed
  then show ?thesis
    using inv by (simp add: timer_inv_def list_all_iff) (simp add: toggle_off_state [OF True])
qed

lemma timer_inv_cong:
  "timer_inv s \<Longrightarrow> nextTimerId s' = nextTimerId s \<Longrightarrow> isActive s' = isActive s \<Longrightarrow>
   intervalRef s' = intervalRef s \<Longrightarrow> timerRef s' = timerRef s \<Longrightarrow>
   set (timers s') \<subseteq> set (timers s) \<Longrightarrow> timer_inv s'"
  using timer_ok_cong [of s' s] by (auto simp: timer_inv_def list_all_iff)

lemma performScan_timer_fields [simp]:
  "nextTimerId (fst (performScan env s)) = nextTimerId s"
  "isActive (fst (performScan env s)) = isActive s"
  "intervalRef (fst (performScan env s)) = intervalRef s"
  "timerRef (fst (performScan env s)) = timerRef s"
  "timers (fst (performScan env s)) = timers s"
  by (cases "scan_starts env s"; simp add: performScan_skip performScan_start)+

lemma settled_timer_fields [simp]:
  "nextTimerId (performScan_settled i out s) = nextTimerId s"
  "isActive (performScan_settled i out s) = isActive s"
  "intervalRef (performScan_settled i out s) = intervalRef s"
  "timerRef (performScan_settled i out s) = timerRef s"
  "timers (performScan_settled i out s) = timers s"
  by (cases out; simp add: performScan_settled_def)+

lemma runCallback_timer_fields [simp]:
  "nextTimerId (runCallback cb env s) = nextTimerId s"
  "isActive (runCallback cb env s) = isActive s"
  "intervalRef (runCallback cb env s) = intervalRef s"
  "timerRef (runCallback cb env s) = timerRef s"
  "timers (runCallback cb env s) = timers s"
  by (cases cb; simp add: runCallback_def countdownTick_def)+

lemma timer_inv_step: "timer_inv s \<Longrightarrow> step solve e s = Some s' \<Longrightarrow> timer_inv s'"
proof (cases e)
  case Toggle
  then show "timer_inv s \<Longrightarrow> step solve e s = Some s' \<Longrightarrow> ?thesis"
    by (auto simp: step_def timer_inv_toggle)
next
  case (ScanNow env)
  then show "timer_inv s \<Longrightarrow> step solve e s = Some s' \<Longrightarrow> ?thesis"
    by (auto simp: step_def split: if_splits elim: timer_inv_cong)
next
  case (Fire h env)
  then show "timer_inv s \<Longrightarrow> step solve e s = Some s' \<Longrightarrow> ?thesis"
    by (auto simp: step_def clearInterval_def split: option.splits timer.splits
        elim!: timer_inv_cong)
next
  case (Settle k b)
  then show "timer_inv s \<Longrightarrow> step solve e s = Some s' \<Longrightarrow> ?thesis"
    by (auto simp: step_def Let_def split_def split: if_splits elim!: timer_inv_cong)
qed

lemma timer_inv_initial: "timer_inv initial"
  by (simp add: timer_inv_def initial_def)

lemma timer_inv_run: "timer_inv s \<Longrightarrow> run solve s evs = Some s' \<Longrightarrow> timer_inv s'"
  by (induction evs arbitrary: s) (auto split: option.splits dest: timer_inv_step)

subsection \<open>The client\<close>

lemma catch_block_text [simp]: "text_res (catch_block err) = js ''Error''"
  by (simp add: catch_block_def Let_def)

lemma catch_block_sources [simp]: "sources_res (catch_block err) = []"
  by (simp add: catch_block_def Let_def)

lemma catch_block_reasoning:
  "\<exists>msg. msg \<noteq> [] \<and> reasoning_res (catch_block err) = failure_prefix @ msg"
  by (auto simp: catch_block_def Let_def unknown_error_message_def safety_message_def)

lemma solve_resolves: "\<exists>res. solveProblemFromImage img b = Inr res"
  by (simp add: solveProblemFromImage_def split: sum.splits)

lemma solve_search_resolves: "\<exists>res. solveProblemFromImage_search up img b = Inr res"
  by (simp add: solveProblemFromImage_search_def split: sum.splits)

lemma solve_failure:
  "\<forall>response. b \<noteq> ApiResolved response \<Longrightarrow> solveProblemFromImage img b = Inr (catch_block
     (case b of ApiRejected err \<Rightarrow> err | _ \<Rightarrow> Error timeout_message_15))"
  by (cases b) (simp_all add: solveProblemFromImage_def try_block_def race_def)

lemma solve_search_failure:
  "\<forall>response. b \<noteq> ApiResolved response \<Longrightarrow> solveProblemFromImage_search up img b = Inr (catch_block
     (case b of ApiRejected err \<Rightarrow> err | _ \<Rightarrow> Error timeout_message_45))"
  by (cases b) (simp_all add: solveProblemFromImage_search_def try_block_search_def race_def)

text \<open>error stays unset under a client that never rejects\<close>

lemma no_error_performScan:
  "\<forall>r \<in> set (results s). error r = None \<Longrightarrow>
   \<forall>r \<in> set (results (fst (performScan env s))). error r = None"
  by (cases "scan_starts env s") (auto simp: performScan_skip performScan_start newResult_of_def)

lemma no_error_step:
  assumes res: "\<And>img b. \<exists>res. solve img b = Inr res"
    and inv: "\<forall>r \<in> set (results s). error r = None"
    and st: "step solve e s = Some s'"
  shows "\<forall>r \<in> set (results s'). error r = None"
proof (cases e)
  case Toggle
  with inv st show ?thesis by (auto simp: step_def)
next
  case (ScanNow env)
  with st no_error_performScan [OF inv] show ?thesis by (auto simp: step_def split: if_splits)
next
  case (Fire h env)
  have "\<forall>r \<in> set (results (clearInterval h s)). error r = None" using inv by simp
  note a = no_error_performScan [OF this] no_error_performScan [OF inv]
  with Fire st inv show ?thesis
    by (auto simp: step_def runCallback_def split: option.splits timer.splits callback.splits)
next
  case (Settle k b)
  obtain res where "solve (snd (awaiting s ! k)) b = Inr res" using res by blast
  with Settle st inv show ?thesis
    by (auto simp: step_def Let_def split_def performScan_settled_def split: if_splits)
qed

lemma no_error_run:
  assumes res: "\<And>img b. \<exists>res. solve img b = Inr res"
  shows "\<forall>r \<in> set (results s). error r = None \<Longrightarrow> run solve s evs = Some s' \<Longrightarrow>
    \<forall>r \<in> set (results s'). error r = None"
proof (induction evs arbitrary: s)
  case Nil
  then show ?case by simp
next
  case (Cons e evs)
  from Cons.prems(2) obtain s1 where s1: "step solve e s = Some s1" and r: "run solve s1 evs = Some s'"
    by (auto split: option.splits)
  from no_error_step [OF res Cons.prems(1) s1] have "\<forall>r \<in> set (results s1). error r = None" .
  from Cons.IH [OF this r] show ?case .
qed

lemma run_timed_out:
  "run solveProblemFromImage initial [Toggle, ScanNow (env_at 5), Settle 0 ApiPending] = Some timed_out"
  by (simp add: run_defs scanning_def timed_out_def toString.simps solveProblemFromImage_def
      try_block_def race_def catch_block_def includes_str.simps timeout_message_15_def failure_prefix_def)

lemma run_timed_out_search:
  "run (solveProblemFromImage_search up) initial [Toggle, ScanNow (env_at 5), Settle 0 ApiPending] = Some timed_out_search"
  by (simp add: run_defs scanning_def timed_out_search_def toString.simps solveProblemFromImage_search_def
      try_block_search_def race_def catch_block_def includes_str.simps timeout_message_45_def failure_prefix_def)

subsection \<open>The history\<close>

lemma unat_digit: "d < 10 \<Longrightarrow> unat (digit d) - 48 = d"
  by (simp add: digit_def unat_of_nat del: of_nat_add)

lemma from_digits_toString: "from_digits (toString n) = n"
proof (induction n rule: toString.induct)
  case (1 n)
  show ?case
  proof (cases "n < 10")
    case True
    then show ?thesis by (simp add: toString.simps [of n] from_digits_def unat_digit)
  next
    case False
    with 1 have "from_digits (toString (n div 10)) = n div 10" by simp
    with False show ?thesis
      by (simp add: toString.simps [of n] from_digits_def unat_digit)
  qed
qed

lemma toString_inj: "toString m = toString n \<Longrightarrow> m = n"
  by (metis from_digits_toString)

text \<open>what a step does to the history\<close>

lemma settled_fixed:
  "map fixed_fields (results (performScan_settled i out s)) = map fixed_fields (results s)"
  by (cases out) (auto simp: performScan_settled_def fixed_fields_def)

lemma performScan_results:
  "results (fst (performScan env s)) = results s
   \<or> (scan_starts env s \<and> results (fst (performScan env s)) = newResult_of env # results s)"
  by (cases "scan_starts env s") (simp_all add: performScan_skip performScan_start)

lemma scan_starts_iff: "scan_starts env s \<longleftrightarrow> \<not> isProcessingRef s \<and> frame_of env \<noteq> []"
  by (auto simp: scan_starts_def frame_of_def split: option.splits)

lemma started_request:
  "request_of e s = Some env \<Longrightarrow> scan_starts env s \<Longrightarrow> env \<in> set (started e s)"
  by (simp add: started_def scan_starts_iff)

lemma step_results:
  assumes "step solve e s = Some s'"
  shows "map fixed_fields (results s') = map fixed_fields (results s)
       \<or> (\<exists>env \<in> set (started e s). results s' = newResult_of env # results s)"
proof (cases e)
  case Toggle
  with assms show ?thesis by (auto simp: step_def)
next
  case (ScanNow env)
  with assms have act: "isActive s" and s': "s' = fst (performScan env s)"
    by (auto simp: step_def split: if_splits)
  from ScanNow act have req: "request_of e s = Some env" by (simp add: request_of_def)
  from performScan_results [of env s] started_request [OF req] s' show ?thesis by auto
next
  case (Fire h env)
  show ?thesis
  proof (cases "request_of e s")
    case None
    with Fire assms show ?thesis
      by (auto simp: step_def runCallback_def request_of_def
          split: option.splits timer.splits callback.splits)
  next
    case (Some env')
    with Fire have env': "env' = env"
      by (auto simp: request_of_def split: option.splits timer.splits callback.splits)
    have st: "scan_starts env (clearInterval h s) = scan_starts env s"
      by (simp add: scan_starts_def)
    from Some Fire assms
    have "s' = fst (performScan env s) \<or> s' = fst (performScan env (clearInterval h s))"
      by (auto simp: step_def runCallback_def request_of_def
          split: option.splits timer.splits callback.splits)
    with performScan_results [of env s] performScan_results [of env "clearInterval h s"]
      started_request [OF Some] st env'
    show ?thesis by auto
  qed
next
  case (Settle k b)
  with assms show ?thesis
    by (auto simp: step_def Let_def split_def settled_fixed split: if_splits)
qed


lemma clock_reads_Cons:
  "step solve e s = Some s1 \<Longrightarrow>
   clock_reads solve s (e # evs) = started e s @ clock_reads solve s1 evs"
  by simp


lemma step_ids:
  assumes "step solve e s = Some s'"
  shows "map id_scan (results s') = map id_scan (results s)
       \<or> (\<exists>env \<in> set (started e s).
            map id_scan (results s') = toString (now_id env) # map id_scan (results s))"
  using step_results [OF assms]
proof
  assume "map fixed_fields (results s') = map fixed_fields (results s)"
  then have "map fst (map fixed_fields (results s')) = map fst (map fixed_fields (results s))"
    by simp
  then show ?thesis by (simp add: fixed_fields_def comp_def)
next
  assume "\<exists>env \<in> set (started e s). results s' = newResult_of env # results s"
  then show ?thesis by (auto simp: newResult_of_def)
qed

lemma ids_inv_step:
  assumes s1: "step solve e s = Some s1"
    and inv: "ids_inv s (started e s @ fut)"
    and srt: "sorted_wrt (<) (map now_id (started e s @ fut))"
  shows "ids_inv s1 fut"
proof -
  from inv obtain ns where ns: "map id_scan (results s) = map toString ns"
    "sorted_wrt (>) ns" "\<forall>n \<in> set ns. \<forall>env \<in> set (started e s @ fut). n < now_id env"
    by (auto simp: ids_inv_def)
  from srt have lt: "\<forall>a \<in> set (started e s). \<forall>b \<in> set fut. now_id a < now_id b"
    by (auto simp: sorted_wrt_append)
  from step_ids [OF s1] show ?thesis
  proof
    assume "map id_scan (results s1) = map id_scan (results s)"
    with ns show ?thesis by (auto simp: ids_inv_def)
  next
    assume "\<exists>env \<in> set (started e s).
        map id_scan (results s1) = toString (now_id env) # map id_scan (results s)"
    then obtain env where env: "env \<in> set (started e s)"
      and m: "map id_scan (results s1) = toString (now_id env) # map id_scan (results s)"
      by auto
    from m ns(1) have a: "map id_scan (results s1) = map toString (now_id env # ns)" by simp
    from ns(2,3) env have b: "sorted_wrt (>) (now_id env # ns)" by auto
    from ns(3) lt env
    have c: "\<forall>n \<in> set (now_id env # ns). \<forall>env \<in> set fut. n < now_id env" by auto
    from a b c show ?thesis unfolding ids_inv_def by blast
  qed
qed

lemma ids_inv_run:
  assumes "run solve s evs = Some s'"
    and "sorted_wrt (<) (map now_id (clock_reads solve s evs))"
    and "ids_inv s (clock_reads solve s evs)"
  shows "ids_inv s' []"
  using assms
proof (induction evs arbitrary: s)
  case Nil
  then show ?case by simp
next
  case (Cons e evs)
  from Cons.prems(1) obtain s1 where s1: "step solve e s = Some s1"
    and r: "run solve s1 evs = Some s'" by (auto split: option.splits)
  note envs = clock_reads_Cons [OF s1, of evs]
  from Cons.prems(2) have srt: "sorted_wrt (<) (map now_id (clock_reads solve s1 evs))"
    unfolding envs by (auto simp: sorted_wrt_append)
  from ids_inv_step [OF s1] Cons.prems(2,3) have "ids_inv s1 (clock_reads solve s1 evs)"
    unfolding envs by blast
  from Cons.IH [OF r srt this] show ?case .
qed

lemma ids_inv_initial: "ids_inv initial fut"
  unfolding ids_inv_def by (rule exI [of _ "[]"]) (simp add: initial_def)

lemma ids_inv_distinct: "ids_inv s fut \<Longrightarrow> distinct (map id_scan (results s))"
  unfolding ids_inv_def
proof (elim exE conjE)
  fix ns
  assume m: "map id_scan (results s) = map toString ns" and srt: "sorted_wrt (>) ns"
  from srt have "distinct ns" by (induction ns) auto
  moreover have "inj_on toString (set ns)" by (auto intro: inj_onI dest: toString_inj)
  ultimately show "distinct (map id_scan (results s))" by (simp add: m distinct_map)
qed

lemma settles_step:
  assumes inv: "lock_inv s" and d: "distinct (map id_scan (results s))"
    and st: "step solve e s = Some s'"
  shows "list_all2 settles (results s) (older s s')"
proof -
  have refl: "list_all2 settles xs xs" for xs
    by (simp add: list_all2_same settles_def)
  have scan: "list_all2 settles (results s0) (older s0 (fst (performScan env s0)))" for env s0
    using performScan_results [of env s0] by (auto simp: older_def refl)
  show ?thesis
  proof (cases e)
    case Toggle
    with st show ?thesis by (auto simp: step_def older_def refl)
  next
    case (ScanNow env)
    with st scan [of s env] show ?thesis by (auto simp: step_def split: if_splits)
  next
    case (Fire h env)
    have o: "older s (fst (performScan env (clearInterval h s))) = older (clearInterval h s) (fst (performScan env (clearInterval h s)))"
      by (simp add: older_def)
    from Fire st scan [of s env] scan [of "clearInterval h s" env] show ?thesis
      by (auto simp: step_def runCallback_def o older_def refl split: option.splits timer.splits callback.splits)
  next
    case (Settle k b)
    with st have k: "k < length (awaiting s)" by (auto simp: step_def split: if_splits)
    with inv have len: "length (awaiting s) = 1" by (auto simp: lock_inv_def split: if_splits)
    with k have k0: "k = 0" by simp
    from len obtain p where p: "awaiting s = [p]" by (cases "awaiting s") auto
    from inv p have one: "length (filter loading (results s)) = 1" by (simp add: lock_inv_def)
    then have "filter loading (results s) \<noteq> []" by auto
    then obtain r0 where r0: "r0 \<in> set (results s)" "loading r0"
      by (auto simp: filter_empty_conv)
    with inv p have id0: "id_scan r0 = fst p" by (auto simp: lock_inv_def)
    have load: "loading r" if "r \<in> set (results s)" "id_scan r = fst p" for r
    proof -
      from d have "inj_on id_scan (set (results s))" by (simp add: distinct_map)
      with that r0 id0 have "r = r0" by (metis inj_onD)
      with r0 show ?thesis by simp
    qed
    from Settle st have s': "s' = performScan_settled (fst p) (solve (snd p) b) (s \<lparr> awaiting := [] \<rparr>)"
      by (auto simp: step_def p k0 split_def Let_def)
    have "list_all2 settles (results s) (results s')"
      using load
      by (cases "solve (snd p) b")
        (auto simp: s' performScan_settled_def list_all2_map2 list_all2_same settles_def fixed_fields_def)
    moreover have "length (results s') = length (results s)"
      by (cases "solve (snd p) b") (auto simp: s' performScan_settled_def)
    ultimately show ?thesis by (simp add: older_def)
  qed
qed

lemma pending_settles:
  assumes inv: "lock_inv s" and p: "filter loading (results s) \<noteq> []"
  shows "\<exists>s'. step solve (Settle 0 b) s = Some s' \<and> filter loading (results s') = []
           \<and> \<not> isProcessingRef s'"
proof -
  from p have "0 < length (filter loading (results s))" by simp
  with inv have k: "0 < length (awaiting s)" by (simp add: lock_inv_def)
  then obtain s' where s': "step solve (Settle 0 b) s = Some s'"
    by (auto simp: step_def Let_def split_def)
  then have np: "\<not> isProcessingRef s'"
    using k by (auto simp: step_def Let_def split_def performScan_settled_def)
  from lock_inv_step [OF inv s'] np have "filter loading (results s') = []"
    by (auto simp: lock_inv_def)
  with s' np show ?thesis by blast
qed

lemma settles_counts:
  "list_all2 settles rs rs1 \<Longrightarrow>
   map (\<lambda>((r, r1), n). if r1 = r then n else Suc n) (zip (zip rs rs1) (map once_settled rs))
     = map once_settled rs1"
  by (induction rule: list_all2_induct) (auto simp: settles_def once_settled_def)

lemma bump_step:
  assumes inv: "lock_inv s" and d: "distinct (map id_scan (results s))"
    and st: "step solve e s = Some s1"
  shows "bump s s1 (map once_settled (results s)) = map once_settled (results s1)"
proof -
  note set = settles_counts [OF settles_step [OF inv d st]]
  from step_results [OF st] show ?thesis
  proof
    assume "map fixed_fields (results s1) = map fixed_fields (results s)"
    then have len: "length (results s1) = length (results s)" by (metis length_map)
    then have "older s s1 = results s1" by (simp add: older_def)
    with set len show ?thesis by (simp add: bump_def)
  next
    assume "\<exists>env \<in> set (started e s). results s1 = newResult_of env # results s"
    then obtain env where r: "results s1 = newResult_of env # results s" by auto
    then have "older s s1 = results s" by (simp add: older_def)
    with set r show ?thesis by (simp add: bump_def once_settled_def newResult_of_def)
  qed
qed

lemma mutations_run:
  assumes "run solve s evs = Some s'"
    and "sorted_wrt (<) (map now_id (clock_reads solve s evs))"
    and "ids_inv s (clock_reads solve s evs)"
    and "lock_inv s"
  shows "mutations solve s (map once_settled (results s)) evs = map once_settled (results s')"
  using assms
proof (induction evs arbitrary: s)
  case Nil
  then show ?case by simp
next
  case (Cons e evs)
  from Cons.prems(1) obtain s1 where s1: "step solve e s = Some s1"
    and r: "run solve s1 evs = Some s'" by (auto split: option.splits)
  note envs = clock_reads_Cons [OF s1, of evs]
  from Cons.prems(2) have srt: "sorted_wrt (<) (map now_id (clock_reads solve s1 evs))"
    unfolding envs by (auto simp: sorted_wrt_append)
  from ids_inv_step [OF s1] Cons.prems(2,3) have i1: "ids_inv s1 (clock_reads solve s1 evs)"
    unfolding envs by blast
  from lock_inv_step [OF Cons.prems(4) s1] have l1: "lock_inv s1" .
  from ids_inv_distinct [OF Cons.prems(3)] have d: "distinct (map id_scan (results s))" .
  from bump_step [OF Cons.prems(4) d s1] Cons.IH [OF r srt i1 l1] s1
  show ?case by simp
qed

subsection \<open>Sample runs\<close>

lemmas sample_defs = timed_out_def timed_out_search_def pending_at_def answered_def switched_on_def switched_off_def
  stale_scan_def first_done_def second_scan_def both_done_def collided_def no_frame_def
  scanning_def

lemmas string_defs = SPLIT_def split_str_def trim_def is_ws_def remove_periods_def
  fullText_of_def race_def

lemma solve_reply_A: "solveProblemFromImage img (reply ''A'') =
    Inr \<lparr> text_res = js ''A'', reasoning_res = no_reasoning_message, sources_res = [] \<rparr>"
  by (simp add: solveProblemFromImage_def try_block_def reply_def js_def string_defs)

lemma solve_reply_B: "solveProblemFromImage img (reply ''B'') =
    Inr \<lparr> text_res = js ''B'', reasoning_res = no_reasoning_message, sources_res = [] \<rparr>"
  by (simp add: solveProblemFromImage_def try_block_def reply_def js_def string_defs)

lemma solve_reply_A_why: "solveProblemFromImage img (reply ''A---SPLIT---why'') =
    Inr \<lparr> text_res = js ''A'', reasoning_res = js ''why'', sources_res = [] \<rparr>"
  by (simp add: solveProblemFromImage_def try_block_def reply_def js_def string_defs)

lemma frame_not_empty [simp]: "frame \<noteq> []"
  by (simp add: frame_def js_def)

lemmas run_defs2 = step_def timer_defs performScan_def performScan_settled_def runCallback_def
  countdownTick_def initial_def env_at_def digit_def
  AUTO_SCAN_INTERVAL_MS_def Let_def sample_defs toString.simps

lemma run_switched_on: "run solve initial [Toggle] = Some switched_on"
  by (simp add: run_defs2)

lemma run_switched_off: "run solve initial [Toggle, Toggle] = Some switched_off"
  by (simp add: run_defs2)

lemma step_stale_scan: "step solve (Fire 1 camera_off) switched_off = Some stale_scan"
  by (simp add: run_defs2 js_def camera_off_def blank_canvas_def)

lemma run_first_done_A:
  "run solveProblemFromImage initial [Toggle, ScanNow (env_at 5), Settle 0 (reply ''A'')]
    = Some (first_done ''A'')"
  by (simp add: run_defs2 solve_reply_A js_def)

lemma run_second_scan:
  "run solveProblemFromImage initial
     [Toggle, ScanNow (env_at 5), Settle 0 (reply ''B''), ScanNow (env_at 7)] = Some second_scan"
  by (simp add: run_defs2 solve_reply_B js_def)

lemma step_both_done:
  "step solveProblemFromImage (Settle 0 (reply ''A---SPLIT---why'')) second_scan = Some both_done"
  by (simp add: run_defs2 solve_reply_A_why js_def)

lemma run_collided:
  "run solveProblemFromImage initial
     [Toggle, ScanNow (env_at 5), Settle 0 (reply ''A''), ScanNow (env_at 5), Settle 0 (reply ''B'')]
    = Some collided"
  by (simp add: run_defs2 solve_reply_A solve_reply_B js_def)

lemma run_timed_out2:
  "step solveProblemFromImage (Settle 0 ApiPending) scanning = Some timed_out"
  by (simp add: step_def scanning_def timed_out_def performScan_settled_def solve_failure
      catch_block_def Let_def includes_str.simps timeout_message_15_def js_def)

lemmas read_defs = started_def request_of_def frame_of_def

lemma run_with_tick: "run solveProblemFromImage initial with_tick = Some second_scan"
  by (simp add: with_tick_def run_defs2 solve_reply_B js_def)

lemma reads_with_tick:
  "clock_reads solveProblemFromImage initial with_tick = [env_at 5, env_at 7]"
  by (simp add: with_tick_def run_defs2 read_defs solve_reply_B js_def)


lemma run_same_reading: "run solveProblemFromImage initial same_reading = Some collided"
  unfolding same_reading_def by (rule run_collided)

lemma mutations_same_reading:
  "mutations solveProblemFromImage initial [] same_reading = [1, 2]"
  by (simp add: same_reading_def run_defs2 bump_def older_def solve_reply_A solve_reply_B js_def)

subsection \<open>The answer text\<close>

lemma split_from_not_Nil: "split_from sep cur s \<noteq> []"
  by (induction sep cur s rule: split_from.induct) auto

lemma split_str_SPLIT: "\<exists>p0 rest. split_str SPLIT s = p0 # rest"
  using split_from_not_Nil [of SPLIT "[]" s]
  by (cases "split_from SPLIT [] s") (auto simp: split_str_def SPLIT_def js_def)

lemma trim_trimmed: "trimmed (trim s)"
proof (cases "trim s = []")
  case True
  then show ?thesis by (simp add: trimmed_def)
next
  case False
  let ?zs = "dropWhile is_ws s"
  let ?ys = "dropWhile is_ws (rev ?zs)"
  from False have ys: "?ys \<noteq> []" by (simp add: trim_def)
  have "?zs = [] \<Longrightarrow> ?ys = []" by (auto dest: set_dropWhileD)
  with ys have zs: "?zs \<noteq> []" by blast
  from ys have a: "\<not> is_ws (hd ?ys)" by (rule hd_dropWhile)
  have "last ?ys = last (rev ?zs)"
    using ys by (metis last_appendR takeWhile_dropWhile_id)
  also have "\<dots> = hd ?zs" using zs by (simp add: last_rev)
  finally have b: "\<not> is_ws (last ?ys)" using hd_dropWhile [OF zs] by simp
  from a b ys show ?thesis by (simp add: trimmed_def trim_def last_rev hd_rev)
qed

lemma set_trim: "set (trim s) \<subseteq> set s"
proof -
  have "set (dropWhile is_ws (rev (dropWhile is_ws s))) \<subseteq> set (rev (dropWhile is_ws s))"
    by (rule set_dropWhileD [THEN subsetI])
  also have "\<dots> \<subseteq> set s" by (auto dest: set_dropWhileD)
  finally show ?thesis by (simp add: trim_def)
qed

lemma no_period: "0x2E \<notin> set (trim (remove_periods s))"
  using set_trim [of "remove_periods s"] by (auto simp: remove_periods_def)

lemma split_comma_tokens:
  "t \<in> set (split_from [c] cur s) \<Longrightarrow> set t \<subseteq> set cur \<union> (set s - {c})"
  by (induction "[c]" cur s arbitrary: t rule: split_from.induct) (auto split: if_splits)

lemma split_comma_length:
  "length (concat (split_from [c] cur s)) \<le> length cur + length s"
  by (induction "[c]" cur s rule: split_from.induct) auto

lemma choice_cases:
  "is_choice c \<longleftrightarrow> c \<in> {0x41, 0x42, 0x43, 0x44, 0x45, 0x61, 0x62, 0x63, 0x64, 0x65,
     0x31, 0x32, 0x33, 0x34, 0x35}"
  by (auto simp: is_choice_def js_def)

lemma upper_choice_cases:
  "is_upper_choice c \<longleftrightarrow> c \<in> {0x41, 0x42, 0x43, 0x44, 0x45, 0x31, 0x32, 0x33, 0x34, 0x35}"
  by (auto simp: is_upper_choice_def js_def)

lemma choice_ascii: "is_choice c \<Longrightarrow> c < 0x80"
  by (auto simp: choice_cases)

lemma choice_upper: "is_choice c \<Longrightarrow> is_upper_choice (ascii_upper c)"
  by (auto simp: choice_cases upper_choice_cases ascii_upper_def)

lemma ws_upper: "is_ws c \<Longrightarrow> ascii_upper c = c"
proof -
  have "\<not> (0x2000 \<le> c \<and> c \<le> 0x7A)"
  proof
    assume "0x2000 \<le> c \<and> c \<le> 0x7A"
    then have "(0x2000 :: jschar) \<le> 0x7A" by (metis order_trans)
    then show False by simp
  qed
  then show "is_ws c \<Longrightarrow> ascii_upper c = c"
    by (auto simp: is_ws_def ascii_upper_def)
qed

lemma comma_upper: "ascii_upper 0x2C = 0x2C"
  by (simp add: ascii_upper_def)

lemma valid_plain: "is_valid_char c \<Longrightarrow> c < 0x80 \<or> is_ws c"
  by (auto simp: is_valid_char_def choice_ascii)

lemma valid_upper:
  "is_valid_char c \<Longrightarrow> \<not> is_ws (ascii_upper c) \<Longrightarrow> ascii_upper c \<noteq> 0x2C \<Longrightarrow>
   is_upper_choice (ascii_upper c)"
  by (auto simp: is_valid_char_def choice_upper ws_upper comma_upper)

lemma uppercases_plain_ascii: "uppercases_plain toUpperCase_ascii"
  by (simp add: uppercases_plain_def toUpperCase_ascii_def)

lemma split_from_first:
  "0x2D \<notin> set a \<Longrightarrow> split_from SPLIT cur (a @ SPLIT @ rest) = (cur @ a) # split_from SPLIT [] rest"
proof (induction a arbitrary: cur)
  case Nil
  show ?case by (simp add: SPLIT_def js_def)
next
  case (Cons x a)
  then have "\<not> prefix SPLIT (x # a @ SPLIT @ rest)" by (auto simp: SPLIT_def js_def)
  with Cons show ?case by simp
qed

lemma trim_id: "a \<noteq> [] \<Longrightarrow> trimmed a \<Longrightarrow> trim a = a"
proof -
  assume a: "a \<noteq> []" and t: "trimmed a"
  then have h: "\<not> is_ws (hd a)" and l: "\<not> is_ws (last a)" by (auto simp: trimmed_def)
  from a h have 1: "dropWhile is_ws a = a" by (cases a) auto
  from a l have "\<not> is_ws (hd (rev a))" by (simp add: hd_rev)
  with a have 2: "dropWhile is_ws (rev a) = rev a" by (cases "rev a") auto
  show ?thesis by (simp add: trim_def 1 2)
qed

lemma remove_bold_id: "0x2A \<notin> set a \<Longrightarrow> remove_bold a = a"
  by (induction a rule: remove_bold.induct) auto

lemma remove_periods_id: "0x2E \<notin> set a \<Longrightarrow> remove_periods a = a"
  by (auto simp: remove_periods_def filter_id_conv)

lemma Error_plain: "0x2E \<notin> set (js ''Error'') \<and> trimmed (js ''Error'')"
  by (simp add: js_def trimmed_def is_ws_def)

lemma solve_text_plain:
  "\<exists>res. solveProblemFromImage img b = Inr res
     \<and> 0x2E \<notin> set (text_res res) \<and> trimmed (text_res res)"
proof (cases b)
  case (ApiResolved response)
  obtain p0 rest where sp: "split_str SPLIT (fullText_of response) = p0 # rest"
    using split_str_SPLIT by blast
  show ?thesis
    by (simp add: ApiResolved solveProblemFromImage_def try_block_def race_def sp Let_def
        no_period trim_trimmed)
next
  case (ApiRejected err)
  then show ?thesis
    using Error_plain by (simp add: solve_failure)
next
  case ApiPending
  then show ?thesis
    using Error_plain by (simp add: solve_failure)
qed

lemmas client_defs = solveProblemFromImage_def try_block_def solveProblemFromImage_search_def
  try_block_search_def race_def fullText_of_def reply_def js_def SPLIT_def split_str_def
  trim_def is_ws_def remove_periods_def remove_ws_def strip_label_def ascii_upper_def
  validate_answer_def toUpperCase_ascii_def UNKNOWN_def ERROR_def is_valid_char_def
  is_choice_def sources_of_def Let_def

lemma search_reply_ac:
  "solveProblemFromImage_search toUpperCase_ascii frame (reply ''a,c---SPLIT---x'')
     = Inr \<lparr> text_res = js ''A, C'', reasoning_res = js ''x'', sources_res = [] \<rparr>"
  by (simp add: client_defs)

lemma solve_reply_sentence:
  "solveProblemFromImage frame (reply ''The answer is probably B. I am not sure.'')
     = Inr \<lparr> text_res = js ''The answer is probably B I am not sure'',
            reasoning_res = no_reasoning_message, sources_res = [] \<rparr>"
  by (simp add: client_defs)

lemma search_reply_comma:
  "solveProblemFromImage_search toUpperCase_ascii frame (reply '',---SPLIT---x'')
     = Inr \<lparr> text_res = [], reasoning_res = js ''x'', sources_res = [] \<rparr>"
  by (simp add: client_defs)

lemma search_reply_rescue:
  "solveProblemFromImage_search toUpperCase_ascii frame (reply ''A is right because of reasons'')
     = Inr \<lparr> text_res = js ''A'', reasoning_res = no_reasoning_message, sources_res = [] \<rparr>"
  by (simp add: client_defs)

lemma SPLIT_not_Nil: "SPLIT \<noteq> []"
  by (simp add: SPLIT_def js_def)

lemma before_marker_Nil: "prefix SPLIT t \<or> t = [] \<Longrightarrow> before_marker [] t"
  by (auto simp: before_marker_def marker_at_def)

lemma before_marker_Cons:
  assumes "\<not> prefix SPLIT (c # cs)" and "before_marker p0 cs"
  shows "before_marker (c # p0) (c # cs)"
proof -
  have "\<not> marker_at i (c # cs)" if "i < Suc (length p0)" for i
  proof (cases i)
    case 0
    with assms(1) show ?thesis by (simp add: marker_at_def)
  next
    case (Suc j)
    with that assms(2) show ?thesis by (simp add: before_marker_def marker_at_def list_all_iff)
  qed
  with assms(2) show ?thesis by (auto simp: before_marker_def marker_at_def list_all_iff)
qed

lemma split_from_before_marker:
  "split_from SPLIT cur t = p # rest \<Longrightarrow> \<exists>p0. p = cur @ p0 \<and> before_marker p0 t"
proof (induction t arbitrary: cur)
  case Nil
  then show ?case by (simp add: before_marker_Nil)
next
  case (Cons c cs)
  show ?case
  proof (cases "prefix SPLIT (c # cs)")
    case True
    with Cons.prems have "p = cur" by simp
    with True show ?thesis by (simp add: before_marker_Nil)
  next
    case False
    with Cons.prems have "split_from SPLIT (cur @ [c]) cs = p # rest" by simp
    from Cons.IH [OF this] obtain p0 where "p = (cur @ [c]) @ p0" "before_marker p0 cs" by blast
    with before_marker_Cons [OF False] have "p = cur @ (c # p0) \<and> before_marker (c # p0) (c # cs)"
      by simp
    then show ?thesis by blast
  qed
qed

lemma before_marker_length:
  assumes "before_marker p t" and "before_marker q t"
  shows "\<not> length p < length q"
proof
  assume l: "length p < length q"
  from assms(2) have "length q \<le> length t" by (auto simp: before_marker_def prefix_def)
  with l have "p \<noteq> t" by auto
  with assms(1) have "marker_at (length p) t" by (simp add: before_marker_def)
  moreover from assms(2) l have "\<not> marker_at (length p) t"
    by (simp add: before_marker_def list_all_iff)
  ultimately show False by blast
qed

lemma before_marker_unique:
  assumes "before_marker p t" and "before_marker q t"
  shows "p = q"
proof -
  from before_marker_length [OF assms] before_marker_length [OF assms(2) assms(1)]
  have "length p = length q" by simp
  moreover from assms have "prefix p t" "prefix q t" by (simp_all add: before_marker_def)
  ultimately show ?thesis by (auto simp: prefix_def)
qed

lemma before_marker_exists: "\<exists>p0. before_marker p0 t"
proof -
  obtain p rest where "split_from SPLIT [] t = p # rest"
    using split_from_not_Nil [of SPLIT "[]" t] by (cases "split_from SPLIT [] t") auto
  from split_from_before_marker [OF this] show ?thesis by blast
qed

lemma before_marker_split:
  assumes "before_marker p0 t"
  shows "\<exists>rest. split_str SPLIT t = p0 # rest"
proof -
  obtain p rest where sp: "split_from SPLIT [] t = p # rest"
    using split_from_not_Nil [of SPLIT "[]" t] by (cases "split_from SPLIT [] t") auto
  from split_from_before_marker [OF this] have "before_marker p t" by auto
  then have "p = p0" using assms by (rule before_marker_unique)
  with sp show ?thesis by (simp add: split_str_def SPLIT_not_Nil)
qed

lemma join_Cons: "ys \<noteq> [] \<Longrightarrow> join sep (x # ys) = x @ sep @ join sep ys"
  by (cases ys) simp_all

lemma join_split_from: "join [c] (split_from [c] cur s) = cur @ s"
  by (induction "[c]" cur s rule: split_from.induct) (simp_all add: join_Cons split_from_not_Nil)

lemma split_from_comma_free: "t \<in> set (split_from [c] [] s) \<Longrightarrow> c \<notin> set t"
  using split_comma_tokens [of t c "[]" s] by auto

lemma solve_resolved:
  assumes "before_marker p0 (fullText_of response)"
  shows "\<exists>res. solveProblemFromImage img (ApiResolved response) = Inr res
     \<and> text_res res = trim (remove_periods (remove_bold (trim p0)))"
proof -
  from before_marker_split [OF assms] obtain rest
    where "split_str SPLIT (fullText_of response) = p0 # rest" by blast
  then show ?thesis
    by (simp add: solveProblemFromImage_def try_block_def race_def Let_def)
qed

lemma solve_search_resolved:
  assumes "before_marker p0 (fullText_of response)"
  shows "\<exists>res. solveProblemFromImage_search toUpperCase img (ApiResolved response) = Inr res
     \<and> text_res res = validate_answer toUpperCase (rawText_of p0)"
proof -
  from before_marker_split [OF assms] obtain rest
    where "split_str SPLIT (fullText_of response) = p0 # rest" by blast
  then show ?thesis
    by (simp add: solveProblemFromImage_search_def try_block_search_def race_def Let_def
        rawText_of_def)
qed

lemma clean_text: "clean a \<Longrightarrow> trim (remove_periods (remove_bold (trim a))) = a"
  by (simp add: clean_def trim_id remove_bold_id remove_periods_id)

lemma validate_unknown:
  "includes_str (toUpperCase raw) UNKNOWN \<Longrightarrow> validate_answer toUpperCase raw = UNKNOWN"
  by (simp add: validate_answer_def)

lemma validate_normalise:
  assumes up: "uppercases_plain toUpperCase"
    and unk: "\<not> includes_str (toUpperCase raw) UNKNOWN" and ok: "short_answer raw"
  shows "\<exists>pieces. join (js '','') pieces = remove_ws (map ascii_upper raw)
     \<and> list_all (\<lambda>p. 0x2C \<notin> set p) pieces
     \<and> validate_answer toUpperCase raw = join (js '', '') (filter (\<lambda>t. t \<noteq> []) pieces)
     \<and> list_all (\<lambda>t. list_all is_upper_choice t) pieces
     \<and> length (concat pieces) \<le> 15"
proof -
  let ?s = "remove_ws (map ascii_upper raw)"
  let ?pieces = "split_from [0x2C] [] ?s"
  from ok have v: "list_all is_valid_char raw" and len: "length raw \<le> 15" and ne: "raw \<noteq> []"
    by (simp_all add: short_answer_def)
  from v have "list_all (\<lambda>c. c < 0x80 \<or> is_ws c) raw"
    by (auto simp: list_all_iff dest: valid_plain)
  with up have u: "toUpperCase raw = map ascii_upper raw" by (simp add: uppercases_plain_def)
  have sp: "split_str (js '','') ?s = ?pieces" by (simp add: split_str_def js_def)
  have 1: "join (js '','') ?pieces = ?s"
    using join_split_from [of "0x2C" "[]" ?s] by (simp add: js_def)
  have 2: "list_all (\<lambda>p. 0x2C \<notin> set p) ?pieces"
    using split_from_comma_free [of _ "0x2C" ?s] by (auto simp: list_all_iff)
  have 3: "validate_answer toUpperCase raw = join (js '', '') (filter (\<lambda>t. t \<noteq> []) ?pieces)"
    using unk v len ne by (simp add: validate_answer_def Let_def u sp)
  have chars: "\<forall>x \<in> set ?s. x \<noteq> 0x2C \<longrightarrow> is_upper_choice x"
    using v by (auto simp: remove_ws_def list_all_iff valid_upper)
  have 4: "list_all (\<lambda>t. list_all is_upper_choice t) ?pieces"
    using split_comma_tokens [of _ "0x2C" "[]" ?s] chars by (fastforce simp: list_all_iff)
  have "length (concat ?pieces) \<le> length ?s" using split_comma_length [of "0x2C" "[]" ?s] by simp
  also have "\<dots> \<le> length raw" by (simp add: remove_ws_def)
  finally have 5: "length (concat ?pieces) \<le> 15" using len by simp
  from 1 2 3 4 5 show ?thesis by blast
qed

lemma validate_rescue:
  assumes up: "uppercases_plain toUpperCase"
    and unk: "\<not> includes_str (toUpperCase raw) UNKNOWN" and no: "\<not> short_answer raw"
    and lead: "leading_choice raw"
  shows "validate_answer toUpperCase raw = [ascii_upper (hd raw)]"
proof -
  from lead obtain c cs where raw: "raw = c # cs" and c: "is_choice c"
    and cs: "cs = [] \<or> is_ws (hd cs)"
    by (cases raw) (auto simp: leading_choice_def)
  from c have "list_all (\<lambda>c. c < 0x80 \<or> is_ws c) [c]" by (simp add: choice_ascii)
  with up have "toUpperCase [c] = map ascii_upper [c]" unfolding uppercases_plain_def by blast
  with unk no raw c cs show ?thesis
    by (cases cs) (auto simp: validate_answer_def Let_def short_answer_def)
qed

lemma validate_error:
  assumes unk: "\<not> includes_str (toUpperCase raw) UNKNOWN" and no: "\<not> short_answer raw"
    and lead: "\<not> leading_choice raw"
  shows "validate_answer toUpperCase raw = ERROR"
proof (cases raw)
  case Nil
  with unk show ?thesis by (simp add: validate_answer_def Let_def)
next
  case (Cons c cs)
  with unk no lead show ?thesis
    by (cases cs) (auto simp: validate_answer_def Let_def short_answer_def leading_choice_def)
qed

lemma answerText_solve:
  "before_marker p0 (fullText_of response) \<Longrightarrow>
   answerText (solveProblemFromImage img (ApiResolved response))
     = Some (trim (remove_periods (remove_bold (trim p0))))"
  using solve_resolved [of p0 response img] by (auto simp: answerText_def)

lemma answerText_search:
  "before_marker p0 (fullText_of response) \<Longrightarrow>
   answerText (solveProblemFromImage_search toUpperCase img (ApiResolved response))
     = Some (validate_answer toUpperCase (rawText_of p0))"
  using solve_search_resolved [of p0 response toUpperCase img] by (auto simp: answerText_def)

lemma answerText_failure:
  "\<forall>response. b \<noteq> ApiResolved response \<Longrightarrow>
   answerText (solveProblemFromImage img b) = Some (js ''Error'')
   \<and> answerText (solveProblemFromImage_search toUpperCase img b) = Some (js ''Error'')"
  by (simp add: solve_failure solve_search_failure answerText_def)

lemma answerText_plain:
  "\<exists>t. answerText (solveProblemFromImage img b) = Some t \<and> 0x2E \<notin> set t \<and> trimmed t"
  using solve_text_plain [of img b] by (auto simp: answerText_def)

lemma split_from_none: "0x2D \<notin> set t \<Longrightarrow> split_from SPLIT cur t = [cur @ t]"
proof (induction t arbitrary: cur)
  case Nil
  show ?case by simp
next
  case (Cons x t)
  then have "\<not> prefix SPLIT (x # t)" by (auto simp: SPLIT_def js_def)
  with Cons show ?case by simp
qed

lemma before_marker_whole: "0x2D \<notin> set t \<Longrightarrow> before_marker t t"
  using split_from_before_marker [of "[]" t t "[]"] by (simp add: split_from_none)

lemma before_marker_clean: "0x2D \<notin> set a \<Longrightarrow> before_marker a (a @ SPLIT @ rest)"
  using split_from_before_marker [of "[]" "a @ SPLIT @ rest" a "split_from SPLIT [] rest"]
  by (simp add: split_from_first)

lemmas answer_defs = rawText_of_def short_answer_def leading_choice_def clean_def trimmed_def
  trim_def is_ws_def strip_label_def ascii_upper_def remove_ws_def toUpperCase_ascii_def
  UNKNOWN_def is_valid_char_def is_choice_def js_def

lemma fullText_resolved: "t \<noteq> [] \<Longrightarrow> fullText_of (resolved t) = js t"
  by (simp add: fullText_of_def resolved_def js_def)

section \<open>The claims\<close>

text \<open>
  C1, as amended. For every scan whose inference call fails (the remote call rejects, or
  is still pending when the client's timeout fires), with either version of the client:
  when the call settles, the lock is released, and the matching record exists and ends
  not loading, with the text \<open>Error\<close>, with a reasoning made of the failure prefix and a
  non-empty message, and with \<open>error\<close> unset. Its status is complete, not failed.
\<close>

theorem failed_call_is_reported_in_text:
  assumes client: "solve = solveProblemFromImage \<or> solve = solveProblemFromImage_search toUpperCase"
    and reach: "run solve initial evs = Some s"
    and settle: "step solve (Settle k b) s = Some s'"
    and failure: "\<forall>response. b \<noteq> ApiResolved response"
  shows "\<not> isProcessingRef s'
       \<and> (\<exists>r \<in> set (results s'). id_scan r = fst (awaiting s ! k))
       \<and> (\<forall>r \<in> set (results s'). id_scan r = fst (awaiting s ! k) \<longrightarrow>
             \<not> loading r \<and> error r = None \<and> status_of r = Complete
             \<and> text_scan r = js ''Error''
             \<and> (\<exists>msg. msg \<noteq> [] \<and> reasoning r = Some (failure_prefix @ msg)))"
proof -
  from client have never: "\<And>img b. \<exists>res. solve img b = Inr res"
    using solve_resolves solve_search_resolves by auto
  have "\<forall>r \<in> set (results initial). error r = None" by (simp add: initial_def)
  from no_error_run [of solve, OF never this reach]
  have noerr: "\<forall>r \<in> set (results s). error r = None" .
  from lock_inv_run [OF lock_inv_initial reach] have inv: "lock_inv s" .
  from settle have k: "k < length (awaiting s)" by (auto simp: step_def split: if_splits)
  with inv have len: "length (awaiting s) = 1" by (auto simp: lock_inv_def split: if_splits)
  with k have k0: "k = 0" by simp
  from len obtain p where p: "awaiting s = [p]" by (cases "awaiting s") auto
  from inv p have "length (filter loading (results s)) = 1" by (simp add: lock_inv_def)
  then have "filter loading (results s) \<noteq> []" by auto
  then obtain r0 where r0: "r0 \<in> set (results s)" "loading r0"
    by (auto simp: filter_empty_conv)
  with inv p have id0: "id_scan r0 = fst p" by (auto simp: lock_inv_def)
  from client failure obtain err where out: "solve (snd p) b = Inr (catch_block err)"
    using solve_failure [OF failure] solve_search_failure [OF failure] by auto
  obtain msg where msg: "msg \<noteq> []" "reasoning_res (catch_block err) = failure_prefix @ msg"
    using catch_block_reasoning by blast
  let ?f = "\<lambda>r. if id_scan r = fst p
      then r \<lparr> loading := False, text_scan := js ''Error'',
              reasoning := Some (failure_prefix @ msg), sources := [] \<rparr> else r"
  from settle have s': "s' = s \<lparr> awaiting := [], results := map ?f (results s),
      isProcessingRef := False \<rparr>"
    by (auto simp: step_def p k0 split_def Let_def performScan_settled_def out msg cong: if_cong)
  have a: "\<not> isProcessingRef s'" by (simp add: s')
  have "?f r0 \<in> set (results s')" using r0 by (simp add: s')
  moreover have "id_scan (?f r0) = fst p" using id0 by simp
  moreover have "fst (awaiting s ! k) = fst p" by (simp add: p k0)
  ultimately have b: "\<exists>r \<in> set (results s'). id_scan r = fst (awaiting s ! k)"
    by (intro bexI [of _ "?f r0"]) simp_all
  have c: "\<forall>r \<in> set (results s'). id_scan r = fst (awaiting s ! k) \<longrightarrow>
             \<not> loading r \<and> error r = None \<and> status_of r = Complete
             \<and> text_scan r = js ''Error''
             \<and> (\<exists>msg. msg \<noteq> [] \<and> reasoning r = Some (failure_prefix @ msg))"
    using noerr msg(1) by (auto simp: s' p k0 status_of_def split: if_splits)
  from a b c show ?thesis by blast
qed

theorem failed_call_is_reported_in_text_witness:
  "run solveProblemFromImage initial [Toggle, ScanNow (env_at 5)] = Some scanning
   \<and> step solveProblemFromImage (Settle 0 ApiPending) scanning = Some timed_out
   \<and> \<not> isProcessingRef timed_out
   \<and> map id_scan (results timed_out) = [fst (awaiting scanning ! 0)]
   \<and> map loading (results timed_out) = [False]
   \<and> map error (results timed_out) = [None]
   \<and> map status_of (results timed_out) = [Complete]
   \<and> map text_scan (results timed_out) = [js ''Error'']
   \<and> map reasoning (results timed_out) = [Some (failure_prefix @ timeout_message_15)]"
proof -
  have f: "\<forall>response. ApiPending \<noteq> ApiResolved response" by simp
  note t = failed_call_is_reported_in_text [OF disjI1 [OF refl] run_scanning run_timed_out2 f]
  show ?thesis
    using t by (simp add: run_scanning run_timed_out2 del: run.simps)
      (simp add: timed_out_def scanning_def status_of_def)
qed

text \<open>
  C1 as stated fails: after a timeout the record is complete with the text \<open>Error\<close>; it
  has no error message.
\<close>

theorem failed_call_not_failed_record:
  "run solveProblemFromImage initial [Toggle, ScanNow (env_at 5), Settle 0 ApiPending]
     = Some timed_out
   \<and> map status_of (results timed_out) = [Complete]
   \<and> map error (results timed_out) = [None]
   \<and> map text_scan (results timed_out) = [js ''Error'']"
  by (simp add: run_timed_out del: run.simps) (simp add: timed_out_def scanning_def status_of_def)

text \<open>
  C2. For any interleaving of clicks on the scan button, timer firings, toggles and
  settling promises, at most one record of the history is pending (\<open>loading\<close>) in the
  state reached. This holds for every client.
\<close>

theorem at_most_one_pending:
  assumes "run solve initial evs = Some s"
  shows "length (filter loading (results s)) \<le> 1"
proof -
  from lock_inv_run [OF lock_inv_initial assms] have "lock_inv s" .
  then show ?thesis by (auto simp: lock_inv_def split: if_splits)
qed

theorem at_most_one_pending_witness:
  "run solveProblemFromImage initial [Toggle, ScanNow (env_at 5)] = Some scanning
   \<and> length (filter loading (results scanning)) \<le> 1"
  using at_most_one_pending [OF run_scanning [of solveProblemFromImage]]
  by (simp add: run_scanning del: run.simps)

text \<open>
  C3. A call of \<open>performScan\<close> while the lock is held returns the state as it was: no
  record is added to the history and the countdown keeps its value. The only call it
  makes, if any, is the log line.
\<close>

theorem locked_scan_is_skipped:
  assumes "isProcessingRef s"
  shows "fst (performScan env s) = s
       \<and> results (fst (performScan env s)) = results s
       \<and> timeUntilNextScan (fst (performScan env s)) = timeUntilNextScan s
       \<and> set (snd (performScan env s)) \<subseteq> {ConsoleLog}"
  using assms by (simp add: performScan_def split: option.splits)

theorem locked_scan_is_skipped_witness:
  "isProcessingRef scanning
   \<and> fst (performScan (env_at 7) scanning) = scanning
   \<and> results (fst (performScan (env_at 7) scanning)) = results scanning
   \<and> timeUntilNextScan (fst (performScan (env_at 7) scanning)) = timeUntilNextScan scanning
   \<and> snd (performScan (env_at 7) scanning) = [ConsoleLog]"
proof -
  have h: "isProcessingRef scanning" by (simp add: scanning_def)
  show ?thesis
    using h locked_scan_is_skipped [OF h, of "env_at 7"]
    by (simp add: performScan_def env_at_def)
qed

text \<open>
  C4. The code breaks the claim. \<open>performScan\<close> never reads \<open>isActive\<close>; its callers keep
  it from running while inactive (the periodic timer is cleared, the scan button is
  not rendered), except that the scan \<open>handleToggle\<close> schedules 1.5 seconds ahead is
  never cancelled. Switched on and off again, the state is inactive and that scan is
  still pending; when it fires, \<open>capture()\<close> returns the data URL of the blank canvas,
  the lock is taken, a pending record is created and the client is called.
\<close>

theorem scan_while_inactive:
  "run solveProblemFromImage initial [Toggle, Toggle] = Some switched_off
   \<and> \<not> isActive switched_off
   \<and> results switched_off = []
   \<and> step solveProblemFromImage (Fire 1 camera_off) switched_off = Some stale_scan
   \<and> \<not> isActive stale_scan
   \<and> map loading (results stale_scan) = [True]
   \<and> awaiting stale_scan = [(js ''5'', blank_canvas)]
   \<and> snd (performScan camera_off (clearInterval 1 switched_off))
       = [Capture, Lock, SetResults, SetTimeUntilNextScan, SolveProblemFromImage blank_canvas]"
proof -
  have a: "\<not> isActive switched_off \<and> results switched_off = []"
    by (simp add: switched_off_def switched_on_def)
  have b: "\<not> isActive stale_scan \<and> map loading (results stale_scan) = [True]
      \<and> awaiting stale_scan = [(js ''5'', blank_canvas)]"
    by (simp add: stale_scan_def switched_off_def switched_on_def pending_at_def)
  have c: "snd (performScan camera_off (clearInterval 1 switched_off))
       = [Capture, Lock, SetResults, SetTimeUntilNextScan, SolveProblemFromImage blank_canvas]"
    by (simp add: switched_off_def switched_on_def performScan_def camera_off_def
      clearInterval_def Let_def blank_canvas_def js_def)
  from a b c run_switched_off [of solveProblemFromImage]
    step_stale_scan [of solveProblemFromImage]
  show ?thesis by blast
qed

text \<open>
  C5, as amended. In every \<open>performScan\<close> that passes the lock check (with a camera
  handle), the frame is obtained first. If \<open>capture()\<close> yields none, that call is the only
  one made: the state is unchanged, so the lock is still free and the history has no new
  entry. If it yields a frame, the lock is set after the capture, then the record is
  prepended, the countdown reset and the client called.
\<close>

theorem capture_before_lock:
  assumes "\<not> isProcessingRef s" and "cameraRef env = Some handle"
  shows "((handle = None \<or> handle = Some []) \<longrightarrow>
            performScan env s = (s, [Capture])
          \<and> \<not> isProcessingRef (fst (performScan env s))
          \<and> results (fst (performScan env s)) = results s)
       \<and> (\<forall>img. handle = Some img \<and> img \<noteq> [] \<longrightarrow>
            snd (performScan env s)
              = [Capture, Lock, SetResults, SetTimeUntilNextScan, SolveProblemFromImage img]
          \<and> isProcessingRef (fst (performScan env s))
          \<and> results (fst (performScan env s)) = newResult_of env # results s)"
  using assms by (auto simp: performScan_def newResult_of_def frame_of_def Let_def)

theorem capture_before_lock_witness:
  "\<not> isProcessingRef switched_on
   \<and> cameraRef no_frame = Some None
   \<and> performScan no_frame switched_on = (switched_on, [Capture])
   \<and> \<not> isProcessingRef (fst (performScan no_frame switched_on))
   \<and> results (fst (performScan no_frame switched_on)) = results switched_on
   \<and> cameraRef (env_at 5) = Some (Some frame)
   \<and> frame \<noteq> []
   \<and> snd (performScan (env_at 5) switched_on)
       = [Capture, Lock, SetResults, SetTimeUntilNextScan, SolveProblemFromImage frame]
   \<and> isProcessingRef (fst (performScan (env_at 5) switched_on))
   \<and> results (fst (performScan (env_at 5) switched_on))
       = newResult_of (env_at 5) # results switched_on"
proof -
  have a: "\<not> isProcessingRef switched_on" by (simp add: switched_on_def)
  have b: "cameraRef no_frame = Some None" by (simp add: no_frame_def)
  have c: "cameraRef (env_at 5) = Some (Some frame)" by (simp add: env_at_def)
  show ?thesis
    using a b c capture_before_lock [OF a b] capture_before_lock [OF a c] by simp
qed

text \<open>
  C5 as stated fails: the lock is set after the frame is obtained, not before, and a
  failed capture never sets it.
\<close>

theorem lock_after_capture:
  "\<not> isProcessingRef switched_on
   \<and> snd (performScan (env_at 5) switched_on)
       = [Capture, Lock, SetResults, SetTimeUntilNextScan, SolveProblemFromImage frame]
   \<and> snd (performScan no_frame switched_on) = [Capture]"
  by (simp add: performScan_def switched_on_def env_at_def no_frame_def Let_def)




text \<open>
  C7, as amended. In a run from the initial state in which the readings of \<open>Date.now()\<close>
  taken for \<open>id\<close>, one at each scan that starts, strictly increase: the ids are distinct,
  they are the decimal strings of numbers that decrease from the newest record to the
  oldest, every record that has settled has been changed exactly once since it was
  created and every pending one never, a step leaves a settled record as it is and
  takes a pending one only to not loading with its fixed fields kept, and the pending
  record can always settle.
\<close>

theorem ids_unique_when_clock_advances:
  assumes "run solve initial evs = Some s"
    and "sorted_wrt (<) (map now_id (clock_reads solve initial evs))"
  shows "distinct (map id_scan (results s))
       \<and> (\<exists>ns. map id_scan (results s) = map toString ns \<and> sorted_wrt (>) ns)
       \<and> mutations solve initial [] evs = map (\<lambda>r. if loading r then 0 else 1) (results s)
       \<and> (\<forall>e s'. step solve e s = Some s' \<longrightarrow> list_all2 settles (results s) (older s s'))
       \<and> (\<forall>b. filter loading (results s) \<noteq> [] \<longrightarrow>
             (\<exists>s'. step solve (Settle 0 b) s = Some s' \<and> filter loading (results s') = []))"
proof -
  from ids_inv_run [OF assms ids_inv_initial] have i: "ids_inv s []" .
  then have ns: "\<exists>ns. map id_scan (results s) = map toString ns \<and> sorted_wrt (>) ns"
    by (auto simp: ids_inv_def)
  from ids_inv_distinct [OF i] have d: "distinct (map id_scan (results s))" .
  from lock_inv_run [OF lock_inv_initial assms(1)] have inv: "lock_inv s" .
  have "mutations solve initial (map once_settled (results initial)) evs
      = map once_settled (results s)"
    using mutations_run [OF assms ids_inv_initial lock_inv_initial] .
  then have m: "mutations solve initial [] evs
      = map (\<lambda>r. if loading r then 0 else 1) (results s)"
    by (simp add: initial_def once_settled_def [abs_def])
  from settles_step [OF inv d] ns d m pending_settles [OF inv, of solve] show ?thesis by blast
qed

theorem ids_unique_when_clock_advances_witness:
  "run solveProblemFromImage initial with_tick = Some second_scan
   \<and> map now_id (clock_reads solveProblemFromImage initial with_tick) = [5, 7]
   \<and> map id_scan (results second_scan) = map toString [7, 5]
   \<and> distinct (map id_scan (results second_scan))
   \<and> map loading (results second_scan) = [True, False]
   \<and> mutations solveProblemFromImage initial [] with_tick = [0, 1]
   \<and> step solveProblemFromImage (Settle 0 (reply ''A---SPLIT---why'')) second_scan = Some both_done
   \<and> list_all2 settles (results second_scan) (older second_scan both_done)
   \<and> filter loading (results both_done) = []"
proof -
  have a: "map now_id (clock_reads solveProblemFromImage initial with_tick) = [5, 7]"
    by (simp add: reads_with_tick env_at_def)
  then have a': "sorted_wrt (<) (map now_id (clock_reads solveProblemFromImage initial with_tick))"
    by simp
  have b: "map id_scan (results second_scan) = map toString [7, 5]"
    by (simp add: sample_defs)
  have l: "map loading (results second_scan) = [True, False]"
    by (simp add: sample_defs)
  note t = ids_unique_when_clock_advances [OF run_with_tick a']
  from t have c: "distinct (map id_scan (results second_scan))" by blast
  from t have "mutations solveProblemFromImage initial [] with_tick
      = map (\<lambda>r. if loading r then 0 else 1) (results second_scan)" by blast
  then have m: "mutations solveProblemFromImage initial [] with_tick = [0, 1]"
    by (simp add: sample_defs)
  from t step_both_done
  have d: "list_all2 settles (results second_scan) (older second_scan both_done)" by blast
  from l have "filter loading (results second_scan) \<noteq> []" by (auto simp: filter_empty_conv)
  with t have "\<exists>s'. step solveProblemFromImage (Settle 0 (reply ''A---SPLIT---why'')) second_scan
      = Some s' \<and> filter loading (results s') = []" by blast
  with step_both_done have f: "filter loading (results both_done) = []" by auto
  from a b c l m d f run_with_tick step_both_done show ?thesis by blast
qed

text \<open>
  C7 as stated fails: two scans that start at the same clock reading get the same id, and
  the completion of the second overwrites the settled first record, which is thus
  changed twice.
\<close>

theorem same_clock_reading_same_id:
  "run solveProblemFromImage initial
     [Toggle, ScanNow (env_at 5), Settle 0 (reply ''A'')] = Some (first_done ''A'')
   \<and> map loading (results (first_done ''A'')) = [False]
   \<and> map text_scan (results (first_done ''A'')) = [js ''A'']
   \<and> run solveProblemFromImage initial same_reading = Some collided
   \<and> map id_scan (results collided) = [js ''5'', js ''5'']
   \<and> \<not> distinct (map id_scan (results collided))
   \<and> map text_scan (results collided) = [js ''B'', js ''B'']
   \<and> mutations solveProblemFromImage initial [] same_reading = [1, 2]"
proof -
  have a: "map loading (results (first_done ''A'')) = [False]
      \<and> map text_scan (results (first_done ''A'')) = [js ''A'']"
    by (simp add: sample_defs)
  have b: "map id_scan (results collided) = [js ''5'', js ''5'']
      \<and> map text_scan (results collided) = [js ''B'', js ''B'']"
    by (simp add: sample_defs toString.simps digit_def js_def)
  from b have c: "\<not> distinct (map id_scan (results collided))" by simp
  from a b c run_first_done_A run_same_reading mutations_same_reading show ?thesis by blast
qed

text \<open>
  C8, as amended. Given that \<open>toUpperCase\<close> treats ASCII and white space plainly. When the
  call fails, both versions of the client return \<open>Error\<close>; the version \<open>App.tsx\<close> imports
  always returns a text with no period and no white space at either end. Every reply
  has an answer part, the text in front of its first split marker. The imported version
  returns that part trimmed, stripped of \<open>**\<close> and of periods and trimmed again, so a clean
  part unchanged; it does not validate. The validating version takes the raw answer
  out of the part and returns: \<open>UNKNOWN\<close> when the raw answer in upper case contains it;
  otherwise, for a raw answer that is not empty, has at most 15 code units and only
  choices, commas and white space, the pieces between the commas of the raw answer in
  upper case without its white space, less the empty ones, joined by a comma and a
  space (the pieces hold upper-case choices only); otherwise, for a raw answer that
  starts with a choice followed by white space or by nothing, that choice in upper case;
  otherwise \<open>ERROR\<close>.
\<close>

theorem answer_text_shape:
  assumes "uppercases_plain toUpperCase"
  shows "((\<forall>response. b \<noteq> ApiResolved response) \<longrightarrow>
            answerText (solveProblemFromImage img b) = Some (js ''Error'')
          \<and> answerText (solveProblemFromImage_search toUpperCase img b) = Some (js ''Error''))
       \<and> (\<exists>t. answerText (solveProblemFromImage img b) = Some t \<and> 0x2E \<notin> set t \<and> trimmed t)
       \<and> (\<exists>p. before_marker p (fullText_of response))
       \<and> (before_marker part (fullText_of response) \<longrightarrow>
            answerText (solveProblemFromImage img (ApiResolved response))
              = Some (trim (remove_periods (remove_bold (trim part))))
          \<and> (clean part \<longrightarrow>
               answerText (solveProblemFromImage img (ApiResolved response)) = Some part)
          \<and> (includes_str (toUpperCase (rawText_of part)) UNKNOWN \<longrightarrow>
               answerText (solveProblemFromImage_search toUpperCase img (ApiResolved response))
                 = Some UNKNOWN)
          \<and> (\<not> includes_str (toUpperCase (rawText_of part)) UNKNOWN \<and> short_answer (rawText_of part)
               \<longrightarrow> (\<exists>pieces.
                     join (js '','') pieces = remove_ws (map ascii_upper (rawText_of part))
                   \<and> list_all (\<lambda>p. 0x2C \<notin> set p) pieces
                   \<and> answerText
                       (solveProblemFromImage_search toUpperCase img (ApiResolved response))
                       = Some (join (js '', '') (filter (\<lambda>t. t \<noteq> []) pieces))
                   \<and> list_all (\<lambda>t. list_all is_upper_choice t) pieces
                   \<and> length (concat pieces) \<le> 15))
          \<and> (\<not> includes_str (toUpperCase (rawText_of part)) UNKNOWN
               \<and> \<not> short_answer (rawText_of part) \<and> leading_choice (rawText_of part) \<longrightarrow>
               answerText (solveProblemFromImage_search toUpperCase img (ApiResolved response))
                 = Some [ascii_upper (hd (rawText_of part))])
          \<and> (\<not> includes_str (toUpperCase (rawText_of part)) UNKNOWN
               \<and> \<not> short_answer (rawText_of part) \<and> \<not> leading_choice (rawText_of part) \<longrightarrow>
               answerText (solveProblemFromImage_search toUpperCase img (ApiResolved response))
                 = Some ERROR))"
proof -
  let ?raw = "rawText_of part"
  let ?search = "answerText (solveProblemFromImage_search toUpperCase img (ApiResolved response))"
  have fail: "(\<forall>response. b \<noteq> ApiResolved response) \<longrightarrow>
      answerText (solveProblemFromImage img b) = Some (js ''Error'')
      \<and> answerText (solveProblemFromImage_search toUpperCase img b) = Some (js ''Error'')"
    using answerText_failure [of b img toUpperCase] by blast
  have res: "before_marker part (fullText_of response) \<longrightarrow>
      answerText (solveProblemFromImage img (ApiResolved response))
        = Some (trim (remove_periods (remove_bold (trim part))))
      \<and> (clean part \<longrightarrow> answerText (solveProblemFromImage img (ApiResolved response)) = Some part)"
    by (simp add: answerText_solve clean_text)
  have unk: "before_marker part (fullText_of response) \<longrightarrow>
      includes_str (toUpperCase ?raw) UNKNOWN \<longrightarrow> ?search = Some UNKNOWN"
    by (simp add: answerText_search validate_unknown)
  have norm: "before_marker part (fullText_of response) \<longrightarrow>
      \<not> includes_str (toUpperCase ?raw) UNKNOWN \<and> short_answer ?raw \<longrightarrow>
      (\<exists>pieces. join (js '','') pieces = remove_ws (map ascii_upper ?raw)
         \<and> list_all (\<lambda>p. 0x2C \<notin> set p) pieces
         \<and> ?search = Some (join (js '', '') (filter (\<lambda>t. t \<noteq> []) pieces))
         \<and> list_all (\<lambda>t. list_all is_upper_choice t) pieces
         \<and> length (concat pieces) \<le> 15)"
    using validate_normalise [OF assms, of ?raw] by (simp add: answerText_search)
  have resc: "before_marker part (fullText_of response) \<longrightarrow>
      \<not> includes_str (toUpperCase ?raw) UNKNOWN \<and> \<not> short_answer ?raw \<and> leading_choice ?raw
      \<longrightarrow> ?search = Some [ascii_upper (hd ?raw)]"
    using validate_rescue [OF assms, of ?raw] by (simp add: answerText_search)
  have err: "before_marker part (fullText_of response) \<longrightarrow>
      \<not> includes_str (toUpperCase ?raw) UNKNOWN \<and> \<not> short_answer ?raw \<and> \<not> leading_choice ?raw
      \<longrightarrow> ?search = Some ERROR"
    using validate_error [of toUpperCase ?raw] by (simp add: answerText_search)
  from fail answerText_plain [of img b] before_marker_exists [of "fullText_of response"]
    res unk norm resc err
  show ?thesis by blast
qed

theorem answer_text_shape_witness:
  "uppercases_plain toUpperCase_ascii
   \<and> answerText (solveProblemFromImage frame ApiPending) = Some (js ''Error'')
   \<and> answerText (solveProblemFromImage_search toUpperCase_ascii frame ApiPending)
       = Some (js ''Error'')
   \<and> before_marker (js ''a,c'') (fullText_of (resolved ''a,c---SPLIT---x''))
   \<and> clean (js ''a,c'')
   \<and> answerText (solveProblemFromImage frame (ApiResolved (resolved ''a,c---SPLIT---x'')))
       = Some (js ''a,c'')
   \<and> rawText_of (js ''a,c'') = js ''a,c'' \<and> short_answer (js ''a,c'')
   \<and> (\<exists>pieces. join (js '','') pieces = js ''A,C'' \<and> list_all (\<lambda>p. 0x2C \<notin> set p) pieces
         \<and> answerText (solveProblemFromImage_search toUpperCase_ascii frame
             (ApiResolved (resolved ''a,c---SPLIT---x'')))
           = Some (join (js '', '') (filter (\<lambda>t. t \<noteq> []) pieces)))
   \<and> answerText (solveProblemFromImage_search toUpperCase_ascii frame
        (ApiResolved (resolved ''a,c---SPLIT---x''))) = Some (js ''A, C'')
   \<and> before_marker (js ''**Unknown**'') (fullText_of (resolved ''**Unknown**---SPLIT---blurred''))
   \<and> rawText_of (js ''**Unknown**'') = js ''Unknown''
   \<and> answerText (solveProblemFromImage_search toUpperCase_ascii frame
        (ApiResolved (resolved ''**Unknown**---SPLIT---blurred''))) = Some (js ''UNKNOWN'')
   \<and> answerText (solveProblemFromImage frame
        (ApiResolved (resolved ''**Unknown**---SPLIT---blurred''))) = Some (js ''Unknown'')
   \<and> before_marker (js ''A is right because of reasons'')
        (fullText_of (resolved ''A is right because of reasons''))
   \<and> \<not> short_answer (rawText_of (js ''A is right because of reasons''))
   \<and> leading_choice (rawText_of (js ''A is right because of reasons''))
   \<and> answerText (solveProblemFromImage_search toUpperCase_ascii frame
        (ApiResolved (resolved ''A is right because of reasons''))) = Some (js ''A'')
   \<and> before_marker (js ''/remind'') (fullText_of (resolved ''/remind''))
   \<and> \<not> short_answer (rawText_of (js ''/remind''))
   \<and> \<not> leading_choice (rawText_of (js ''/remind''))
   \<and> answerText (solveProblemFromImage_search toUpperCase_ascii frame
        (ApiResolved (resolved ''/remind''))) = Some (js ''ERROR'')
   \<and> answerText (solveProblemFromImage frame (ApiResolved (resolved ''/remind'')))
       = Some (js ''/remind'')"
proof -
  note up = uppercases_plain_ascii
  note t1 = answer_text_shape [OF up, where b = ApiPending and img = frame
      and response = "resolved ''a,c---SPLIT---x''" and part = "js ''a,c''"]
  note t2 = answer_text_shape [OF up, where b = ApiPending and img = frame
      and response = "resolved ''**Unknown**---SPLIT---blurred''" and part = "js ''**Unknown**''"]
  note t3 = answer_text_shape [OF up, where b = ApiPending and img = frame
      and response = "resolved ''A is right because of reasons''"
      and part = "js ''A is right because of reasons''"]
  note t4 = answer_text_shape [OF up, where b = ApiPending and img = frame
      and response = "resolved ''/remind''" and part = "js ''/remind''"]
  from t1 have f: "answerText (solveProblemFromImage frame ApiPending) = Some (js ''Error'')
      \<and> answerText (solveProblemFromImage_search toUpperCase_ascii frame ApiPending)
          = Some (js ''Error'')"
    by simp
  have "fullText_of (resolved ''a,c---SPLIT---x'') = js ''a,c'' @ SPLIT @ js ''x''"
    by (simp add: fullText_of_def resolved_def js_def SPLIT_def)
  moreover have "0x2D \<notin> set (js ''a,c'')" by (simp add: js_def)
  ultimately have b1: "before_marker (js ''a,c'') (fullText_of (resolved ''a,c---SPLIT---x''))"
    by (simp add: before_marker_clean)
  have c1: "clean (js ''a,c'')" by (simp add: answer_defs)
  have r1: "rawText_of (js ''a,c'') = js ''a,c''" by (simp add: answer_defs)
  have s1: "short_answer (js ''a,c'')" by (simp add: answer_defs)
  have u1: "\<not> includes_str (toUpperCase_ascii (js ''a,c'')) UNKNOWN" by (simp add: answer_defs)
  have w1: "remove_ws (map ascii_upper (js ''a,c'')) = js ''A,C''" by (simp add: answer_defs)
  from t1 b1 c1
  have i1: "answerText (solveProblemFromImage frame (ApiResolved (resolved ''a,c---SPLIT---x'')))
      = Some (js ''a,c'')" by blast
  from t1 b1 r1 s1 u1 w1
  have p1: "\<exists>pieces. join (js '','') pieces = js ''A,C'' \<and> list_all (\<lambda>p. 0x2C \<notin> set p) pieces
      \<and> answerText (solveProblemFromImage_search toUpperCase_ascii frame
          (ApiResolved (resolved ''a,c---SPLIT---x'')))
        = Some (join (js '', '') (filter (\<lambda>t. t \<noteq> []) pieces))"
    by auto
  have v1: "answerText (solveProblemFromImage_search toUpperCase_ascii frame
      (ApiResolved (resolved ''a,c---SPLIT---x''))) = Some (js ''A, C'')"
    using search_reply_ac by (simp add: reply_def resolved_def answerText_def)
  have "fullText_of (resolved ''**Unknown**---SPLIT---blurred'')
      = js ''**Unknown**'' @ SPLIT @ js ''blurred''"
    by (simp add: fullText_of_def resolved_def js_def SPLIT_def)
  moreover have "0x2D \<notin> set (js ''**Unknown**'')" by (simp add: js_def)
  ultimately have b2: "before_marker (js ''**Unknown**'')
      (fullText_of (resolved ''**Unknown**---SPLIT---blurred''))"
    by (simp add: before_marker_clean)
  have r2: "rawText_of (js ''**Unknown**'') = js ''Unknown''" by (simp add: answer_defs)
  have u2: "includes_str (toUpperCase_ascii (js ''Unknown'')) UNKNOWN" by (simp add: answer_defs)
  from t2 b2 r2 u2
  have v2: "answerText (solveProblemFromImage_search toUpperCase_ascii frame
      (ApiResolved (resolved ''**Unknown**---SPLIT---blurred''))) = Some (js ''UNKNOWN'')"
    by (simp add: UNKNOWN_def)
  have "trim (remove_periods (remove_bold (trim (js ''**Unknown**'')))) = js ''Unknown''"
    by (simp add: answer_defs remove_periods_def)
  with t2 b2
  have i2: "answerText (solveProblemFromImage frame
      (ApiResolved (resolved ''**Unknown**---SPLIT---blurred''))) = Some (js ''Unknown'')"
    by simp
  have "0x2D \<notin> set (js ''A is right because of reasons'')" by (simp add: js_def)
  then have b3: "before_marker (js ''A is right because of reasons'')
      (fullText_of (resolved ''A is right because of reasons''))"
    by (simp add: fullText_resolved before_marker_whole)
  have r3: "rawText_of (js ''A is right because of reasons'') = js ''A is right because of reasons''"
    by (simp add: answer_defs)
  have s3: "\<not> short_answer (js ''A is right because of reasons'')" by (simp add: answer_defs)
  have l3: "leading_choice (js ''A is right because of reasons'')" by (simp add: answer_defs)
  have u3: "\<not> includes_str (toUpperCase_ascii (js ''A is right because of reasons'')) UNKNOWN"
    by (simp add: answer_defs)
  have h3: "[ascii_upper (hd (js ''A is right because of reasons''))] = js ''A''"
    by (simp add: answer_defs)
  from t3 b3 r3 s3 l3 u3 h3
  have v3: "answerText (solveProblemFromImage_search toUpperCase_ascii frame
      (ApiResolved (resolved ''A is right because of reasons''))) = Some (js ''A'')"
    by simp
  have "0x2D \<notin> set (js ''/remind'')" by (simp add: js_def)
  then have b4: "before_marker (js ''/remind'') (fullText_of (resolved ''/remind''))"
    by (simp add: fullText_resolved before_marker_whole)
  have c4: "clean (js ''/remind'')" by (simp add: answer_defs)
  have r4: "rawText_of (js ''/remind'') = js ''/remind''" by (simp add: answer_defs)
  have s4: "\<not> short_answer (js ''/remind'')" by (simp add: answer_defs)
  have l4: "\<not> leading_choice (js ''/remind'')" by (simp add: answer_defs)
  have u4: "\<not> includes_str (toUpperCase_ascii (js ''/remind'')) UNKNOWN"
    by (simp add: answer_defs)
  from t4 b4 r4 s4 l4 u4
  have v4: "answerText (solveProblemFromImage_search toUpperCase_ascii frame
      (ApiResolved (resolved ''/remind''))) = Some (js ''ERROR'')"
    by (simp add: ERROR_def)
  from t4 b4 c4
  have i4: "answerText (solveProblemFromImage frame (ApiResolved (resolved ''/remind'')))
      = Some (js ''/remind'')" by blast
  from r1 s1 have rs1: "rawText_of (js ''a,c'') = js ''a,c'' \<and> short_answer (js ''a,c'')" by simp
  from r3 s3 l3 have rs3: "\<not> short_answer (rawText_of (js ''A is right because of reasons''))
      \<and> leading_choice (rawText_of (js ''A is right because of reasons''))" by simp
  from r4 s4 l4 have rs4: "\<not> short_answer (rawText_of (js ''/remind''))
      \<and> \<not> leading_choice (rawText_of (js ''/remind''))" by simp
  from up f b1 c1 i1 rs1 p1 v1 b2 r2 v2 i2 b3 rs3 v3 b4 rs4 v4 i4 show ?thesis by blast
qed

text \<open>
  C8 as stated fails: the imported version returns a sentence of 38 code units as it is
  (less its periods), not a short token and not the sentinel; the validating version
  returns the empty text for a lone comma, and the first letter, not the sentinel, for a
  sentence that starts with a choice and a space.
\<close>

theorem answer_text_not_validated:
  "solveProblemFromImage frame (reply ''The answer is probably B. I am not sure.'')
     = Inr \<lparr> text_res = js ''The answer is probably B I am not sure'',
            reasoning_res = no_reasoning_message, sources_res = [] \<rparr>
   \<and> length (js ''The answer is probably B I am not sure'') = 38
   \<and> solveProblemFromImage_search toUpperCase_ascii frame (reply '',---SPLIT---x'')
     = Inr \<lparr> text_res = [], reasoning_res = js ''x'', sources_res = [] \<rparr>
   \<and> solveProblemFromImage_search toUpperCase_ascii frame
       (reply ''A is right because of reasons'')
     = Inr \<lparr> text_res = js ''A'', reasoning_res = no_reasoning_message, sources_res = [] \<rparr>"
proof -
  have "length (js ''The answer is probably B I am not sure'') = 38" by (simp add: js_def)
  with solve_reply_sentence search_reply_comma search_reply_rescue show ?thesis by blast
qed

text \<open>
  C9. In a reachable state, \<open>toggleActive\<close> from inactive makes the state active, leaves
  exactly one periodic scan timer live, with period 30000 ms (none was live before), and
  adds exactly one pending scan with delay 1500 ms to those already pending. From
  active it makes the state inactive, leaves no periodic scan timer live and sets the
  countdown to 30000 ms.
\<close>

theorem toggleActive_timers:
  assumes "run solve initial evs = Some s"
  shows "(\<not> isActive s \<longrightarrow>
            isActive (toggleActive s)
          \<and> periodic_scans (timers s) = []
          \<and> periodic_scans (timers (toggleActive s)) = [30000]
          \<and> scheduled_scans (timers (toggleActive s)) = scheduled_scans (timers s) @ [1500])
       \<and> (isActive s \<longrightarrow>
            \<not> isActive (toggleActive s)
          \<and> periodic_scans (timers (toggleActive s)) = []
          \<and> timeUntilNextScan (toggleActive s) = 30000)"
proof -
  from timer_inv_run [OF timer_inv_initial assms] have inv: "timer_inv s" .
  then have ok: "list_all (timer_ok s) (timers s)" by (simp add: timer_inv_def)
  show ?thesis
    using toggle_on [OF inv] toggle_off [OF inv] inactive_no_periodic [OF ok]
    by (auto simp: AUTO_SCAN_INTERVAL_MS_def)
qed

theorem toggleActive_timers_witness:
  "run solveProblemFromImage initial [] = Some initial
   \<and> \<not> isActive initial
   \<and> isActive (toggleActive initial)
   \<and> periodic_scans (timers initial) = []
   \<and> periodic_scans (timers (toggleActive initial)) = [30000]
   \<and> scheduled_scans (timers (toggleActive initial)) = scheduled_scans (timers initial) @ [1500]
   \<and> run solveProblemFromImage initial [Toggle, ScanNow (env_at 5)] = Some scanning
   \<and> isActive scanning
   \<and> \<not> isActive (toggleActive scanning)
   \<and> periodic_scans (timers (toggleActive scanning)) = []
   \<and> timeUntilNextScan (toggleActive scanning) = 30000"
proof -
  have a: "run solveProblemFromImage initial [] = Some initial" by simp
  have b: "\<not> isActive initial" by (simp add: initial_def)
  have c: "isActive scanning" by (simp add: scanning_def)
  show ?thesis
    using b c toggleActive_timers [OF a] toggleActive_timers [OF run_scanning]
    by (simp add: run_scanning a del: run.simps)
qed

text \<open>
  C10. For every image and every behaviour of the remote service, both versions of
  \<open>solveProblemFromImage\<close> fulfil their promise; when the remote call rejects or times
  out, the text of the result is \<open>Error\<close>. Hence, in every state the orchestrator reaches
  with either client, no record has its \<open>error\<close> field set.
\<close>

theorem solveProblemFromImage_never_rejects:
  "(\<exists>res. solveProblemFromImage img b = Inr res
       \<and> ((\<forall>response. b \<noteq> ApiResolved response) \<longrightarrow> text_res res = js ''Error''))
   \<and> (\<exists>res. solveProblemFromImage_search toUpperCase img b = Inr res
       \<and> ((\<forall>response. b \<noteq> ApiResolved response) \<longrightarrow> text_res res = js ''Error''))
   \<and> (run solveProblemFromImage initial evs = Some s \<longrightarrow>
        (\<forall>r \<in> set (results s). error r = None))
   \<and> (run (solveProblemFromImage_search toUpperCase) initial evs = Some s' \<longrightarrow>
        (\<forall>r \<in> set (results s'). error r = None))"
proof -
  have i: "\<forall>r \<in> set (results initial). error r = None" by (simp add: initial_def)
  have a: "\<exists>res. solveProblemFromImage img b = Inr res
       \<and> ((\<forall>response. b \<noteq> ApiResolved response) \<longrightarrow> text_res res = js ''Error'')"
    using solve_resolves [of img b] solve_failure [of b img] by auto
  have b: "\<exists>res. solveProblemFromImage_search toUpperCase img b = Inr res
       \<and> ((\<forall>response. b \<noteq> ApiResolved response) \<longrightarrow> text_res res = js ''Error'')"
    using solve_search_resolves [of toUpperCase img b] solve_search_failure [of b toUpperCase img] by auto
  have c: "run solveProblemFromImage initial evs = Some s \<longrightarrow>
        (\<forall>r \<in> set (results s). error r = None)"
    using no_error_run [of solveProblemFromImage initial evs s] solve_resolves i by blast
  have d: "run (solveProblemFromImage_search toUpperCase) initial evs = Some s' \<longrightarrow>
        (\<forall>r \<in> set (results s'). error r = None)"
    using no_error_run [of "solveProblemFromImage_search toUpperCase" initial evs s']
      solve_search_resolves i by blast
  show ?thesis
    using a b c d by blast
qed

theorem solveProblemFromImage_never_rejects_witness:
  "solveProblemFromImage frame ApiPending = Inr (catch_block (Error timeout_message_15))
   \<and> solveProblemFromImage_search toUpperCase_ascii frame ApiPending = Inr (catch_block (Error timeout_message_45))
   \<and> text_res (catch_block (Error timeout_message_15)) = js ''Error''
   \<and> text_res (catch_block (Error timeout_message_45)) = js ''Error''
   \<and> run solveProblemFromImage initial [Toggle, ScanNow (env_at 5), Settle 0 ApiPending] = Some timed_out
   \<and> run (solveProblemFromImage_search toUpperCase_ascii) initial [Toggle, ScanNow (env_at 5), Settle 0 ApiPending] = Some timed_out_search
   \<and> map error (results timed_out) = [None]
   \<and> map error (results timed_out_search) = [None]"
proof -
  note t = solveProblemFromImage_never_rejects [of frame ApiPending toUpperCase_ascii
      "[Toggle, ScanNow (env_at 5), Settle 0 ApiPending]" timed_out timed_out_search]
  have a: "solveProblemFromImage frame ApiPending = Inr (catch_block (Error timeout_message_15))"
    by (simp add: solve_failure)
  have b: "solveProblemFromImage_search toUpperCase_ascii frame ApiPending = Inr (catch_block (Error timeout_message_45))"
    by (simp add: solve_search_failure)
  show ?thesis
    using t a b by (simp add: run_timed_out run_timed_out_search timed_out_def timed_out_search_def del: run.simps)
qed

end
